theory Spec2Isabelle
  imports Main "HOL-Library.Word" "HOL-Library.Monad_Syntax" "HOL-Library.Log_Nat"
    "HOL-Library.Signed_Division"
begin

unbundle bit_operations_syntax

section \<open>Data model (abslint128.h)\<close>

text \<open>
  The embedding follows the portable configuration of the header: neither
  \<^verbatim>\<open>ABSL_HAVE_INTRINSIC_INT128\<close> nor a compiler intrinsic is assumed, so every
  operator is the two-limb code of the \<^verbatim>\<open>#else\<close> branches.

  A \<^verbatim>\<open>uint64_t\<close> is a \<open>64 word\<close>. An \<^verbatim>\<open>int64_t\<close> is the same 64-bit pattern read
  through \<open>sint\<close> and compared with \<open><s\<close>. An \<^verbatim>\<open>int\<close> that carries a shift amount
  or a bit index is a mathematical \<open>int\<close>: all such values stay within \<open>[-128, 128]\<close>
  on every defined path.

  Undefined behaviour (a failed \<^verbatim>\<open>assert\<close>, a failed \<^verbatim>\<open>ABSL_INTERNAL_ASSUME\<close>, a
  64-bit shift by an amount outside \<open>[0, 64)\<close>, an out-of-bounds table read) is the
  value \<open>None\<close>.
\<close>

type_synonym uint64_t = "64 word"
type_synonym int64_t = "64 word"

record uint128_t =
  hi_u :: uint64_t
  lo_u :: uint64_t

definition MakeUint128 :: "uint64_t \<Rightarrow> uint64_t \<Rightarrow> uint128_t" where
  "MakeUint128 high low = \<lparr>hi_u = high, lo_u = low\<rparr>"

definition Uint128Low64 :: "uint128_t \<Rightarrow> uint64_t" where
  "Uint128Low64 v = lo_u v"

definition Uint128High64 :: "uint128_t \<Rightarrow> uint64_t" where
  "Uint128High64 v = hi_u v"

definition Uint128Max :: uint128_t where
  "Uint128Max = MakeUint128 0xFFFFFFFFFFFFFFFF 0xFFFFFFFFFFFFFFFF"

text \<open>The logical value of a \<^verbatim>\<open>uint128_t\<close>: \<open>hi * 2^64 + lo\<close>.\<close>

definition value128 :: "uint128_t \<Rightarrow> nat" where
  "value128 v = unat (Uint128High64 v) * 2 ^ 64 + unat (Uint128Low64 v)"

subsection \<open>Constructors from native integers and narrowing conversions\<close>

text \<open>
  \<^verbatim>\<open>int\<close> is 32 bits wide and \<^verbatim>\<open>long long\<close> 64 bits; \<^verbatim>\<open>long\<close> is one or the other,
  depending on the platform, and its constructor has the same body. The cast
  \<^verbatim>\<open>static_cast<uint64_t>(v)\<close> of a signed value sign-extends (\<open>scast\<close>); an
  unsigned value is zero-extended (\<open>ucast\<close>).
\<close>

definition uint128_of_int :: "32 word \<Rightarrow> uint128_t" where
  "uint128_of_int v =
     \<lparr>hi_u = (if v <s 0 then 0xFFFFFFFFFFFFFFFF else 0), lo_u = scast v\<rparr>"

definition uint128_of_long_long :: "64 word \<Rightarrow> uint128_t" where
  "uint128_of_long_long v =
     \<lparr>hi_u = (if v <s 0 then 0xFFFFFFFFFFFFFFFF else 0), lo_u = scast v\<rparr>"

definition uint128_of_unsigned_int :: "32 word \<Rightarrow> uint128_t" where
  "uint128_of_unsigned_int v = \<lparr>hi_u = 0, lo_u = ucast v\<rparr>"

definition uint128_of_unsigned_long_long :: "64 word \<Rightarrow> uint128_t" where
  "uint128_of_unsigned_long_long v = \<lparr>hi_u = 0, lo_u = v\<rparr>"

definition uint128_to_unsigned_long_long :: "uint128_t \<Rightarrow> 64 word" where
  "uint128_to_unsigned_long_long v = lo_u v"

definition uint128_to_unsigned_int :: "uint128_t \<Rightarrow> 32 word" where
  "uint128_to_unsigned_int v = ucast (lo_u v)"

definition uint128_to_int :: "uint128_t \<Rightarrow> 32 word" where
  "uint128_to_int v = ucast (lo_u v)"

subsection \<open>Comparison operators\<close>

definition uint128_eq :: "uint128_t \<Rightarrow> uint128_t \<Rightarrow> bool" where
  "uint128_eq lhs rhs \<longleftrightarrow>
     Uint128Low64 lhs = Uint128Low64 rhs \<and> Uint128High64 lhs = Uint128High64 rhs"

definition uint128_ne :: "uint128_t \<Rightarrow> uint128_t \<Rightarrow> bool" where
  "uint128_ne lhs rhs \<longleftrightarrow> \<not> uint128_eq lhs rhs"

definition uint128_less :: "uint128_t \<Rightarrow> uint128_t \<Rightarrow> bool" where
  "uint128_less lhs rhs \<longleftrightarrow>
     (if Uint128High64 lhs = Uint128High64 rhs
      then Uint128Low64 lhs < Uint128Low64 rhs
      else Uint128High64 lhs < Uint128High64 rhs)"

definition uint128_greater :: "uint128_t \<Rightarrow> uint128_t \<Rightarrow> bool" where
  "uint128_greater lhs rhs \<longleftrightarrow> uint128_less rhs lhs"

definition uint128_le :: "uint128_t \<Rightarrow> uint128_t \<Rightarrow> bool" where
  "uint128_le lhs rhs \<longleftrightarrow> \<not> uint128_less rhs lhs"

definition uint128_ge :: "uint128_t \<Rightarrow> uint128_t \<Rightarrow> bool" where
  "uint128_ge lhs rhs \<longleftrightarrow> \<not> uint128_less lhs rhs"

subsection \<open>Unary and bitwise operators\<close>

definition uint128_neg :: "uint128_t \<Rightarrow> uint128_t" where
  "uint128_neg val =
     (let hi = NOT (Uint128High64 val);
          lo = NOT (Uint128Low64 val) + 1;
          hi = (if lo = 0 then hi + 1 else hi)
      in MakeUint128 hi lo)"

definition uint128_or :: "uint128_t \<Rightarrow> uint128_t \<Rightarrow> uint128_t" where
  "uint128_or lhs rhs =
     MakeUint128 (Uint128High64 lhs OR Uint128High64 rhs)
                 (Uint128Low64 lhs OR Uint128Low64 rhs)"

subsection \<open>Shifts\<close>

text \<open>
  The built-in 64-bit shifts. The shift amount of the source is an \<^verbatim>\<open>int\<close>; an
  amount that is negative or at least 64 has no defined result.
\<close>

definition shl64 :: "uint64_t \<Rightarrow> int \<Rightarrow> uint64_t option" where
  "shl64 w n = (if 0 \<le> n \<and> n < 64 then Some (push_bit (nat n) w) else None)"

definition shr64 :: "uint64_t \<Rightarrow> int \<Rightarrow> uint64_t option" where
  "shr64 w n = (if 0 \<le> n \<and> n < 64 then Some (drop_bit (nat n) w) else None)"

definition uint128_shl :: "uint128_t \<Rightarrow> int \<Rightarrow> uint128_t option" where
  "uint128_shl lhs amount =
     (if amount < 64 then
        if amount \<noteq> 0 then do {
          a \<leftarrow> shl64 (Uint128High64 lhs) amount;
          b \<leftarrow> shr64 (Uint128Low64 lhs) (64 - amount);
          c \<leftarrow> shl64 (Uint128Low64 lhs) amount;
          Some (MakeUint128 (a OR b) c)
        } else Some lhs
      else do {
        a \<leftarrow> shl64 (Uint128Low64 lhs) (amount - 64);
        Some (MakeUint128 a 0)
      })"

definition uint128_shr :: "uint128_t \<Rightarrow> int \<Rightarrow> uint128_t option" where
  "uint128_shr lhs amount =
     (if amount < 64 then
        if amount \<noteq> 0 then do {
          a \<leftarrow> shr64 (Uint128High64 lhs) amount;
          b \<leftarrow> shr64 (Uint128Low64 lhs) amount;
          c \<leftarrow> shl64 (Uint128High64 lhs) (64 - amount);
          Some (MakeUint128 a (b OR c))
        } else Some lhs
      else do {
        a \<leftarrow> shr64 (Uint128High64 lhs) (amount - 64);
        Some (MakeUint128 0 a)
      })"

subsection \<open>Addition, subtraction, multiplication\<close>

definition uint128_add :: "uint128_t \<Rightarrow> uint128_t \<Rightarrow> uint128_t" where
  "uint128_add lhs rhs =
     (let result = MakeUint128 (Uint128High64 lhs + Uint128High64 rhs)
                               (Uint128Low64 lhs + Uint128Low64 rhs)
      in if Uint128Low64 result < Uint128Low64 lhs
         then MakeUint128 (Uint128High64 result + 1) (Uint128Low64 result)
         else result)"

definition uint128_sub :: "uint128_t \<Rightarrow> uint128_t \<Rightarrow> uint128_t" where
  "uint128_sub lhs rhs =
     (let result = MakeUint128 (Uint128High64 lhs - Uint128High64 rhs)
                               (Uint128Low64 lhs - Uint128Low64 rhs)
      in if Uint128Low64 lhs < Uint128Low64 rhs
         then MakeUint128 (Uint128High64 result - 1) (Uint128Low64 result)
         else result)"

text \<open>
  The portable multiplication. \<^verbatim>\<open>uint128_t(a32 * b00)\<close> constructs from an
  \<^verbatim>\<open>unsigned long long\<close>.
\<close>

definition uint128_mul :: "uint128_t \<Rightarrow> uint128_t \<Rightarrow> uint128_t option" where
  "uint128_mul lhs rhs =
     (let a32 = drop_bit 32 (Uint128Low64 lhs);
          a00 = Uint128Low64 lhs AND 0xffffffff;
          b32 = drop_bit 32 (Uint128Low64 rhs);
          b00 = Uint128Low64 rhs AND 0xffffffff;
          result = MakeUint128 (Uint128High64 lhs * Uint128Low64 rhs +
                                Uint128Low64 lhs * Uint128High64 rhs + a32 * b32)
                               (a00 * b00)
      in do {
        t1 \<leftarrow> uint128_shl (uint128_of_unsigned_long_long (a32 * b00)) 32;
        let result = uint128_add result t1;
        t2 \<leftarrow> uint128_shl (uint128_of_unsigned_long_long (a00 * b32)) 32;
        let result = uint128_add result t2;
        Some result
      })"

section \<open>Division engine (int128.cpp)\<close>

subsection \<open>Leading zeros and the highest set bit\<close>

text \<open>
  The string literal \<^verbatim>\<open>"\4\3\2\2\1\1\1\1\0\0\0\0\0\0\0"\<close> is an array of 16 bytes:
  the 15 characters written and the terminating zero byte. A read at index 16 or
  beyond is out of bounds.
\<close>

definition clz_nibble_table :: "int list" where
  "clz_nibble_table = [4, 3, 2, 2, 1, 1, 1, 1, 0, 0, 0, 0, 0, 0, 0, 0]"

definition clz_nibble_at :: "uint64_t \<Rightarrow> int option" where
  "clz_nibble_at n =
     (if unat n < length clz_nibble_table then Some (clz_nibble_table ! unat n) else None)"

text \<open>
  One of the four identical steps of \<^verbatim>\<open>CountLeadingZeros64Slow\<close>:
  \<^verbatim>\<open>if (n >> k) { zeroes -= k; n >>= k; }\<close>.
\<close>

definition clz_step :: "nat \<Rightarrow> int \<times> uint64_t \<Rightarrow> int \<times> uint64_t" where
  "clz_step k s =
     (case s of (zeroes, n) \<Rightarrow>
        if drop_bit k n \<noteq> 0 then (zeroes - int k, drop_bit k n) else (zeroes, n))"

definition CountLeadingZeros64Slow :: "uint64_t \<Rightarrow> int option" where
  "CountLeadingZeros64Slow n =
     (case clz_step 4 (clz_step 8 (clz_step 16 (clz_step 32 (60, n)))) of
        (zeroes, n) \<Rightarrow> do { t \<leftarrow> clz_nibble_at n; Some (t + zeroes) })"

text \<open>
  The compiler intrinsics of the other three branches of \<^verbatim>\<open>CountLeadingZeros64\<close>
  are not code of this repository. They are modelled by their documented contracts:
  \<^verbatim>\<open>_BitScanReverse\<close> and \<^verbatim>\<open>_BitScanReverse64\<close> return zero when the mask is zero and
  otherwise store the index of the highest set bit; \<^verbatim>\<open>__builtin_clzll(0)\<close> is
  undefined and otherwise the number of leading zero bits is returned.
\<close>

definition BitScanReverse :: "'a::len word \<Rightarrow> int option" where
  "BitScanReverse m = (if m = 0 then None else Some (bitlen (uint m) - 1))"

definition builtin_clzll :: "uint64_t \<Rightarrow> int option" where
  "builtin_clzll n = (if n = 0 then None else Some (64 - bitlen (uint n)))"

definition CountLeadingZeros64_msvc_x64 :: "uint64_t \<Rightarrow> int option" where
  "CountLeadingZeros64_msvc_x64 n =
     (case BitScanReverse n of Some result \<Rightarrow> Some (63 - result) | None \<Rightarrow> Some 64)"

definition CountLeadingZeros64_msvc :: "uint64_t \<Rightarrow> int option" where
  "CountLeadingZeros64_msvc n =
     (case (if drop_bit 32 n \<noteq> 0 then BitScanReverse (ucast (drop_bit 32 n) :: 32 word)
            else None) of
        Some result \<Rightarrow> Some (31 - result)
      | None \<Rightarrow>
          (case BitScanReverse (ucast n :: 32 word) of
             Some result \<Rightarrow> Some (63 - result)
           | None \<Rightarrow> Some 64))"

definition CountLeadingZeros64_gnuc :: "uint64_t \<Rightarrow> int option" where
  "CountLeadingZeros64_gnuc n = (if n = 0 then Some 64 else builtin_clzll n)"

text \<open>The portable branch, which the rest of the model uses.\<close>

definition CountLeadingZeros64 :: "uint64_t \<Rightarrow> int option" where
  "CountLeadingZeros64 n = CountLeadingZeros64Slow n"

text \<open>\<^verbatim>\<open>ABSL_INTERNAL_ASSUME(c)\<close>: undefined behaviour when \<open>c\<close> is false.\<close>

definition ABSL_INTERNAL_ASSUME :: "bool \<Rightarrow> unit option" where
  "ABSL_INTERNAL_ASSUME c = (if c then Some () else None)"

definition Fls128 :: "uint128_t \<Rightarrow> int option" where
  "Fls128 n =
     (let hi = Uint128High64 n in
      if hi \<noteq> 0 then do {
        _ \<leftarrow> ABSL_INTERNAL_ASSUME (hi \<noteq> 0);
        c \<leftarrow> CountLeadingZeros64 hi;
        Some (127 - c)
      } else do {
        let low = Uint128Low64 n;
        _ \<leftarrow> ABSL_INTERNAL_ASSUME (low \<noteq> 0);
        c \<leftarrow> CountLeadingZeros64 low;
        Some (63 - c)
      })"

subsection \<open>Unsigned long division\<close>

text \<open>
  The loop state is \<open>(dividend, quot, denominator)\<close>, where \<open>quot\<close> is the
  variable \<^verbatim>\<open>quotient\<close> of the source. The compound assignments \<^verbatim>\<open><<=\<close>, \<^verbatim>\<open>>>=\<close> and
  \<^verbatim>\<open>-=\<close> are defined through \<^verbatim>\<open><<\<close>, \<^verbatim>\<open>>>\<close> and \<^verbatim>\<open>-\<close>, and \<^verbatim>\<open>|=\<close> ORs limb by limb as \<^verbatim>\<open>|\<close>
  does. \<open>DivMod_step\<close> is the loop
  body, \<open>DivMod_loop i shift\<close> is \<^verbatim>\<open>for (; i <= shift; ++i)\<close>.
\<close>

type_synonym divmod_state = "uint128_t \<times> uint128_t \<times> uint128_t"

definition DivMod_step :: "divmod_state \<Rightarrow> divmod_state option" where
  "DivMod_step s =
     (case s of (dividend, quot, denominator) \<Rightarrow> do {
        quot \<leftarrow> uint128_shl quot 1;
        let (dividend, quot) =
          (if uint128_ge dividend denominator
           then (uint128_sub dividend denominator, uint128_or quot (uint128_of_int 1))
           else (dividend, quot));
        denominator \<leftarrow> uint128_shr denominator 1;
        Some (dividend, quot, denominator)
      })"

function DivMod_loop :: "int \<Rightarrow> int \<Rightarrow> divmod_state \<Rightarrow> divmod_state option" where
  "DivMod_loop i shift s =
     (if i \<le> shift then
        (case DivMod_step s of
           None \<Rightarrow> None
         | Some s' \<Rightarrow> DivMod_loop (i + 1) shift s')
      else Some s)"
  by pat_completeness auto
termination
  by (relation "measure (\<lambda>(i, shift, s). nat (shift + 1 - i))") auto

text \<open>\<open>DivMod dividend divisor\<close> returns \<open>(quotient, remainder)\<close>.\<close>

definition DivMod :: "uint128_t \<Rightarrow> uint128_t \<Rightarrow> (uint128_t \<times> uint128_t) option" where
  "DivMod dividend divisor =
     (if \<not> uint128_ne divisor (uint128_of_int 0) then None
      else if uint128_greater divisor dividend then Some (uint128_of_int 0, dividend)
      else if uint128_eq divisor dividend then Some (uint128_of_int 1, uint128_of_int 0)
      else do {
        let denominator = divisor;
        let quot = uint128_of_int 0;
        fls_dividend \<leftarrow> Fls128 dividend;
        fls_denominator \<leftarrow> Fls128 denominator;
        let shift = fls_dividend - fls_denominator;
        denominator \<leftarrow> uint128_shl denominator shift;
        (dividend, quot, denominator) \<leftarrow>
          DivMod_loop 0 shift (dividend, quot, denominator);
        Some (quot, dividend)
      })"

definition uint128_div :: "uint128_t \<Rightarrow> uint128_t \<Rightarrow> uint128_t option" where
  "uint128_div lhs rhs = map_option fst (DivMod lhs rhs)"

definition uint128_mod :: "uint128_t \<Rightarrow> uint128_t \<Rightarrow> uint128_t option" where
  "uint128_mod lhs rhs = map_option snd (DivMod lhs rhs)"

section \<open>Formatter (int128.cpp)\<close>

subsection \<open>The output stream\<close>

text \<open>
  \<^verbatim>\<open>std::ostringstream\<close> belongs to the standard library. Its model keeps what
  \<^verbatim>\<open>ToFormattedString\<close> uses: the base, \<^verbatim>\<open>showbase\<close> and \<^verbatim>\<open>uppercase\<close> flags, the fill
  character, the field width (which every insertion resets to 0) and the text written
  so far. The adjust field of a fresh stream is unset, so padding goes to the left.
  A \<^verbatim>\<open>basefield\<close> that is neither \<^verbatim>\<open>oct\<close> nor \<^verbatim>\<open>hex\<close> prints in decimal; \<^verbatim>\<open>showbase\<close>
  prefixes a nonzero octal number with \<^verbatim>\<open>0\<close> and a nonzero hexadecimal number with
  \<^verbatim>\<open>0x\<close> or \<^verbatim>\<open>0X\<close>, as the \<^verbatim>\<open>#\<close> flag of \<^verbatim>\<open>printf\<close> does.
\<close>

datatype basefield = ios_dec | ios_oct | ios_hex | ios_unset

record fmtflags =
  basefield :: basefield
  showbase :: bool
  uppercase :: bool

function digits_of :: "nat \<Rightarrow> nat \<Rightarrow> nat list" where
  "digits_of b n = (if b < 2 \<or> n < b then [n] else digits_of b (n div b) @ [n mod b])"
  by pat_completeness auto
termination
  by (relation "measure snd") auto

definition digit_char :: "bool \<Rightarrow> nat \<Rightarrow> char" where
  "digit_char upper d =
     (if upper then ''0123456789ABCDEF'' else ''0123456789abcdef'') ! d"

definition format_nat :: "basefield \<Rightarrow> bool \<Rightarrow> bool \<Rightarrow> nat \<Rightarrow> string" where
  "format_nat base showb upper n =
     (case base of
        ios_hex \<Rightarrow>
          (if showb \<and> n \<noteq> 0 then (if upper then ''0X'' else ''0x'') else [])
          @ map (digit_char upper) (digits_of 16 n)
      | ios_oct \<Rightarrow>
          (if showb \<and> n \<noteq> 0 then ''0'' else []) @ map (digit_char upper) (digits_of 8 n)
      | _ \<Rightarrow> map (digit_char upper) (digits_of 10 n))"

record ostringstream =
  os_base :: basefield
  os_showbase :: bool
  os_uppercase :: bool
  os_fill :: char
  os_width :: nat
  os_str :: string

definition ostringstream_init :: ostringstream where
  "ostringstream_init =
     \<lparr>os_base = ios_dec, os_showbase = False, os_uppercase = False,
      os_fill = CHR '' '', os_width = 0, os_str = []\<rparr>"

text \<open>\<^verbatim>\<open>os.setf(flags & copy_mask, copy_mask)\<close> with the copy mask of the source.\<close>

definition os_setf_copy :: "fmtflags \<Rightarrow> ostringstream \<Rightarrow> ostringstream" where
  "os_setf_copy flags os =
     os\<lparr>os_base := basefield flags, os_showbase := showbase flags,
        os_uppercase := uppercase flags\<rparr>"

definition os_put_uint64 :: "uint64_t \<Rightarrow> ostringstream \<Rightarrow> ostringstream" where
  "os_put_uint64 v os =
     (let s = format_nat (os_base os) (os_showbase os) (os_uppercase os) (unat v)
      in os\<lparr>os_str := os_str os @ replicate (os_width os - length s) (os_fill os) @ s,
            os_width := 0\<rparr>)"

definition os_noshowbase :: "ostringstream \<Rightarrow> ostringstream" where
  "os_noshowbase os = os\<lparr>os_showbase := False\<rparr>"

definition os_setfill :: "char \<Rightarrow> ostringstream \<Rightarrow> ostringstream" where
  "os_setfill c os = os\<lparr>os_fill := c\<rparr>"

definition os_setw :: "nat \<Rightarrow> ostringstream \<Rightarrow> ostringstream" where
  "os_setw n os = os\<lparr>os_width := n\<rparr>"

subsection \<open>Formatting a \<^verbatim>\<open>uint128_t\<close>\<close>

text \<open>
  The three divisors are literals of an unsigned 64-bit type (the octal one is \<open>2^63\<close>
  and the decimal one carries the suffix \<^verbatim>\<open>u\<close>) or, for the hexadecimal one, a
  positive signed value: each is converted with a zero high limb. The variable
  \<^verbatim>\<open>div\<close> of the source is \<open>dv\<close> here.
\<close>

definition format_divisor :: "basefield \<Rightarrow> uint128_t \<times> nat" where
  "format_divisor base =
     (case base of
        ios_hex \<Rightarrow> (uint128_of_long_long 0x1000000000000000, 15)
      | ios_oct \<Rightarrow> (uint128_of_unsigned_long_long 0x8000000000000000, 21)
      | _ \<Rightarrow> (uint128_of_unsigned_long_long 10000000000000000000, 19))"

definition ToFormattedString :: "uint128_t \<Rightarrow> fmtflags \<Rightarrow> string option" where
  "ToFormattedString v flags =
     (case format_divisor (basefield flags) of (dv, div_base_log) \<Rightarrow> do {
        let os = os_setf_copy flags ostringstream_init;
        let high = v;
        (high, low) \<leftarrow> DivMod high dv;
        (high, mid) \<leftarrow> DivMod high dv;
        let os =
          (if Uint128Low64 high \<noteq> 0 then
             let os = os_put_uint64 (Uint128Low64 high) os;
                 os = os_setw div_base_log (os_setfill CHR ''0'' (os_noshowbase os));
                 os = os_put_uint64 (Uint128Low64 mid) os;
                 os = os_setw div_base_log os
             in os
           else if Uint128Low64 mid \<noteq> 0 then
             let os = os_put_uint64 (Uint128Low64 mid) os;
                 os = os_setw div_base_log (os_setfill CHR ''0'' (os_noshowbase os))
             in os
           else os);
        let os = os_put_uint64 (Uint128Low64 low) os;
        Some (os_str os)
      })"

text \<open>\<^verbatim>\<open>ToString\<close> passes the default argument \<^verbatim>\<open>std::ios_base::fmtflags()\<close>: no flag set.\<close>

definition ToString :: "uint128_t \<Rightarrow> string option" where
  "ToString v =
     ToFormattedString v \<lparr>basefield = ios_unset, showbase = False, uppercase = False\<rparr>"

section \<open>Signed 128-bit integers\<close>

text \<open>
  The portable layout: a signed high limb and an unsigned low limb. The logical value
  is the two's-complement reading of the 128 bits.
\<close>

record int128_t =
  hi_s :: int64_t
  lo_s :: uint64_t

text \<open>
  Modelled from the spec: the private constructor \<^verbatim>\<open>int128_t(int64_t high, uint64_t low)\<close>
  that \<^verbatim>\<open>MakeInt128\<close> calls is defined in \<^verbatim>\<open>int128_no_intrinsic.inc\<close>, which is not among
  the sources. It stores the two halves (spec, data model: \<^verbatim>\<open>{hi: signed 64-bit, lo:
  unsigned 64-bit}\<close>).
\<close>

definition MakeInt128 :: "int64_t \<Rightarrow> uint64_t \<Rightarrow> int128_t" where
  "MakeInt128 high low = \<lparr>hi_s = high, lo_s = low\<rparr>"

text \<open>
  Modelled from the spec: \<^verbatim>\<open>Int128High64\<close> and \<^verbatim>\<open>Int128Low64\<close> are defined in the missing
  \<^verbatim>\<open>int128_no_intrinsic.inc\<close>; they access the high and low 64-bit halves, bit-exact.
\<close>

definition Int128High64 :: "int128_t \<Rightarrow> int64_t" where
  "Int128High64 v = hi_s v"

definition Int128Low64 :: "int128_t \<Rightarrow> uint64_t" where
  "Int128Low64 v = lo_s v"

definition Int128Max :: int128_t where
  "Int128Max = MakeInt128 0x7FFFFFFFFFFFFFFF 0xFFFFFFFFFFFFFFFF"

definition Int128Min :: int128_t where
  "Int128Min = MakeInt128 0x8000000000000000 0"

text \<open>
  Modelled from the spec: the constructor \<^verbatim>\<open>int128_t(int)\<close> and \<^verbatim>\<open>operator!=\<close> on
  \<^verbatim>\<open>int128_t\<close> are defined in the missing \<^verbatim>\<open>int128_no_intrinsic.inc\<close>. Construction from a
  native integer sign-extends; equality compares both limbs.
\<close>

definition int128_of_int :: "32 word \<Rightarrow> int128_t" where
  "int128_of_int v =
     \<lparr>hi_s = (if v <s 0 then 0xFFFFFFFFFFFFFFFF else 0), lo_s = scast v\<rparr>"

definition int128_ne :: "int128_t \<Rightarrow> int128_t \<Rightarrow> bool" where
  "int128_ne lhs rhs \<longleftrightarrow>
     \<not> (Int128Low64 lhs = Int128Low64 rhs \<and> Int128High64 lhs = Int128High64 rhs)"

text \<open>The two's-complement value of an \<^verbatim>\<open>int128_t\<close>.\<close>

definition svalue128 :: "int128_t \<Rightarrow> int" where
  "svalue128 v = sint (Int128High64 v) * 2 ^ 64 + uint (Int128Low64 v)"

text \<open>The converting constructor \<^verbatim>\<open>uint128_t(int128_t)\<close> keeps the bit pattern.\<close>

definition uint128_of_int128 :: "int128_t \<Rightarrow> uint128_t" where
  "uint128_of_int128 v = \<lparr>hi_u = Int128High64 v, lo_u = Int128Low64 v\<rparr>"

definition BitCastToSigned :: "uint64_t \<Rightarrow> int64_t" where
  "BitCastToSigned v = (if v AND push_bit 63 1 \<noteq> 0 then NOT (NOT v) else v)"

definition UnsignedAbsoluteValue :: "int128_t \<Rightarrow> uint128_t" where
  "UnsignedAbsoluteValue v =
     (if Int128High64 v <s 0 then uint128_neg (uint128_of_int128 v) else uint128_of_int128 v)"

text \<open>
  \<open>int128_DivMod dividend divisor\<close> returns \<open>(quotient, remainder)\<close>; \<open>int128_div\<close> and
  \<open>int128_mod\<close> are \<^verbatim>\<open>operator/\<close> and \<^verbatim>\<open>operator%\<close>, which repeat the same steps.
\<close>

definition int128_DivMod :: "int128_t \<Rightarrow> int128_t \<Rightarrow> (int128_t \<times> int128_t) option" where
  "int128_DivMod dividend divisor =
     (if \<not> (int128_ne dividend Int128Min \<or> int128_ne divisor (int128_of_int (- 1)))
      then None
      else do {
        (quot, remainder) \<leftarrow>
          DivMod (UnsignedAbsoluteValue dividend) (UnsignedAbsoluteValue divisor);
        let quot =
          (if (Int128High64 dividend <s 0) \<noteq> (Int128High64 divisor <s 0)
           then uint128_neg quot else quot);
        let quotient_ret =
          MakeInt128 (BitCastToSigned (Uint128High64 quot)) (Uint128Low64 quot);
        let remainder =
          (if Int128High64 dividend <s 0 then uint128_neg remainder else remainder);
        let remainder_ret =
          MakeInt128 (BitCastToSigned (Uint128High64 remainder)) (Uint128Low64 remainder);
        Some (quotient_ret, remainder_ret)
      })"

definition int128_div :: "int128_t \<Rightarrow> int128_t \<Rightarrow> int128_t option" where
  "int128_div lhs rhs =
     (if \<not> (int128_ne lhs Int128Min \<or> int128_ne rhs (int128_of_int (- 1)))
      then None
      else do {
        (quot, remainder) \<leftarrow>
          DivMod (UnsignedAbsoluteValue lhs) (UnsignedAbsoluteValue rhs);
        let quot =
          (if (Int128High64 lhs <s 0) \<noteq> (Int128High64 rhs <s 0)
           then uint128_neg quot else quot);
        Some (MakeInt128 (BitCastToSigned (Uint128High64 quot)) (Uint128Low64 quot))
      })"

definition int128_mod :: "int128_t \<Rightarrow> int128_t \<Rightarrow> int128_t option" where
  "int128_mod lhs rhs =
     (if \<not> (int128_ne lhs Int128Min \<or> int128_ne rhs (int128_of_int (- 1)))
      then None
      else do {
        (quot, remainder) \<leftarrow>
          DivMod (UnsignedAbsoluteValue lhs) (UnsignedAbsoluteValue rhs);
        let remainder =
          (if Int128High64 lhs <s 0 then uint128_neg remainder else remainder);
        Some (MakeInt128 (BitCastToSigned (Uint128High64 remainder)) (Uint128Low64 remainder))
      })"

section \<open>Abstraction functions, invariants and reference renderings\<close>

text \<open>
  The proofs read a \<^verbatim>\<open>uint128_t\<close> as one 128-bit word, the concatenation of its limbs.
\<close>

definition w128 :: "uint128_t \<Rightarrow> 128 word" where
  "w128 v = word_cat (Uint128High64 v) (Uint128Low64 v)"

text \<open>
  The invariant of \<^verbatim>\<open>CountLeadingZeros64Slow\<close> for the input \<open>n\<close>: after the steps down to
  width \<open>j\<close> the remaining value is below \<open>2^j\<close>, and \<open>zeroes\<close> has lost what was shifted
  out.
\<close>

definition clz_inv :: "nat \<Rightarrow> uint64_t \<Rightarrow> int \<times> uint64_t \<Rightarrow> bool" where
  "clz_inv j n s \<longleftrightarrow>
     (case s of (zeroes, m) \<Rightarrow>
        unat m < 2 ^ j \<and> zeroes = 60 - (bitlen (uint n) - bitlen (uint m)))"

text \<open>
  The invariant of the division loop for the dividend value \<open>N\<close> and the divisor value
  \<open>D\<close>, with \<open>m\<close> iterations left: the quotient bits produced so far and the running
  dividend add up to \<open>N\<close>, the running dividend is below \<open>D * 2^m\<close>, and the denominator
  is the divisor aligned for the next iteration.
\<close>

definition divmod_inv :: "nat \<Rightarrow> nat \<Rightarrow> nat \<Rightarrow> divmod_state \<Rightarrow> bool" where
  "divmod_inv N D m s \<longleftrightarrow>
     (case s of (dividend, quot, denominator) \<Rightarrow>
        N = value128 quot * (D * 2 ^ m) + value128 dividend
        \<and> value128 dividend < D * 2 ^ m
        \<and> (0 < m \<longrightarrow> value128 denominator = D * 2 ^ (m - 1)))"

declare DivMod_loop.simps [simp del]

declare digits_of.simps [simp del]

text \<open>
  The radix selected by a \<^verbatim>\<open>basefield\<close>, the prefix that \<^verbatim>\<open>showbase\<close> adds, and the
  reading of a decimal numeral: the terms in which the formatter's result is stated.
\<close>

definition radix_of :: "basefield \<Rightarrow> nat" where
  "radix_of base = (case base of ios_hex \<Rightarrow> 16 | ios_oct \<Rightarrow> 8 | _ \<Rightarrow> 10)"

definition base_prefix :: "basefield \<Rightarrow> bool \<Rightarrow> bool \<Rightarrow> nat \<Rightarrow> string" where
  "base_prefix base showb upper n =
     (case base of
        ios_hex \<Rightarrow> (if showb \<and> n \<noteq> 0 then (if upper then ''0X'' else ''0x'') else [])
      | ios_oct \<Rightarrow> (if showb \<and> n \<noteq> 0 then ''0'' else [])
      | _ \<Rightarrow> [])"

definition zero_pad :: "nat \<Rightarrow> string \<Rightarrow> string" where
  "zero_pad k s = replicate (k - length s) CHR ''0'' @ s"

definition parse_decimal :: "string \<Rightarrow> nat" where
  "parse_decimal s = foldl (\<lambda>acc c. acc * 10 + (of_char c - 48)) 0 s"

section \<open>Comparison is a total order on the logical value\<close>

lemma value128_inject: "value128 a = value128 b \<longleftrightarrow> a = b"
proof
  assume h: "value128 a = value128 b"
  have la: "unat (lo_u a) < 2 ^ 64" and lb: "unat (lo_u b) < 2 ^ 64"
    using unsigned_less [of "lo_u a"] unsigned_less [of "lo_u b"] by simp_all
  from h have e: "unat (hi_u a) * 2 ^ 64 + unat (lo_u a) = unat (hi_u b) * 2 ^ 64 + unat (lo_u b)"
    by (simp add: value128_def Uint128High64_def Uint128Low64_def)
  have "(unat (hi_u a) * 2 ^ 64 + unat (lo_u a)) div 2 ^ 64 = unat (hi_u a)"
    using la by simp
  moreover have "(unat (hi_u b) * 2 ^ 64 + unat (lo_u b)) div 2 ^ 64 = unat (hi_u b)"
    using lb by simp
  ultimately have hh: "unat (hi_u a) = unat (hi_u b)" using e by metis
  with e have "unat (lo_u a) = unat (lo_u b)" by simp
  with hh have "hi_u a = hi_u b" "lo_u a = lo_u b"
    by (simp_all add: word_unat_eq_iff)
  then show "a = b" by (simp add: uint128_t.equality)
qed simp

lemma uint128_less_value: "uint128_less a b \<longleftrightarrow> value128 a < value128 b"
proof -
  have la: "unat (lo_u a) < 2 ^ 64" and lb: "unat (lo_u b) < 2 ^ 64"
    using unsigned_less [of "lo_u a"] unsigned_less [of "lo_u b"] by simp_all
  show ?thesis
  proof (cases "hi_u a = hi_u b")
    case True
    then show ?thesis
      by (simp add: uint128_less_def value128_def Uint128High64_def Uint128Low64_def
          word_less_nat_alt)
  next
    case False
    then have ne: "unat (hi_u a) \<noteq> unat (hi_u b)" by (simp add: word_unat_eq_iff)
    show ?thesis
    proof (cases "unat (hi_u a) < unat (hi_u b)")
      case True
      then have "unat (hi_u a) + 1 \<le> unat (hi_u b)" by simp
      then have "(unat (hi_u a) + 1) * 2 ^ 64 \<le> unat (hi_u b) * 2 ^ 64"
        by (rule mult_le_mono1)
      then have "value128 a < value128 b"
        using la by (simp add: value128_def Uint128High64_def Uint128Low64_def)
      with True False show ?thesis
        by (simp add: uint128_less_def Uint128High64_def word_less_nat_alt)
    next
      case False
      with ne have "unat (hi_u b) + 1 \<le> unat (hi_u a)" by simp
      then have "(unat (hi_u b) + 1) * 2 ^ 64 \<le> unat (hi_u a) * 2 ^ 64"
        by (rule mult_le_mono1)
      then have "\<not> value128 a < value128 b"
        using lb by (simp add: value128_def Uint128High64_def Uint128Low64_def)
      with False \<open>hi_u a \<noteq> hi_u b\<close> show ?thesis
        by (simp add: uint128_less_def Uint128High64_def word_less_nat_alt)
    qed
  qed
qed

lemma uint128_eq_iff: "uint128_eq a b \<longleftrightarrow> a = b"
  by (auto simp: uint128_eq_def Uint128High64_def Uint128Low64_def uint128_t.equality)

text \<open>
  C5. For all \<open>a\<close> and \<open>b\<close>, exactly one of \<open>a < b\<close>, \<open>a == b\<close>, \<open>a > b\<close> holds, each
  relation agrees with the order of the natural numbers \<open>hi * 2^64 + lo\<close>, and
  \<open>a < b\<close> is decided by the high limbs unless they are equal, when the low limbs
  decide, both compared as unsigned 64-bit numbers.
\<close>

theorem uint128_compare_total_order:
  "(uint128_less a b \<and> \<not> uint128_eq a b \<and> \<not> uint128_greater a b
    \<or> \<not> uint128_less a b \<and> uint128_eq a b \<and> \<not> uint128_greater a b
    \<or> \<not> uint128_less a b \<and> \<not> uint128_eq a b \<and> uint128_greater a b)
   \<and> (uint128_less a b \<longleftrightarrow> value128 a < value128 b)
   \<and> (uint128_eq a b \<longleftrightarrow> value128 a = value128 b)
   \<and> (uint128_greater a b \<longleftrightarrow> value128 a > value128 b)
   \<and> (uint128_le a b \<longleftrightarrow> value128 a \<le> value128 b)
   \<and> (uint128_ge a b \<longleftrightarrow> value128 a \<ge> value128 b)
   \<and> (uint128_less a b \<longleftrightarrow>
        unat (Uint128High64 a) < unat (Uint128High64 b)
        \<or> unat (Uint128High64 a) = unat (Uint128High64 b)
          \<and> unat (Uint128Low64 a) < unat (Uint128Low64 b))"
proof -
  have limbs: "uint128_less a b \<longleftrightarrow>
        unat (Uint128High64 a) < unat (Uint128High64 b)
        \<or> unat (Uint128High64 a) = unat (Uint128High64 b)
          \<and> unat (Uint128Low64 a) < unat (Uint128Low64 b)"
    unfolding uint128_less_def word_less_nat_alt word_unat_eq_iff by simp
  have E: "uint128_eq a b \<longleftrightarrow> value128 a = value128 b"
    by (simp add: uint128_eq_iff value128_inject)
  have L: "uint128_less a b \<longleftrightarrow> value128 a < value128 b"
    by (rule uint128_less_value)
  have G: "uint128_greater a b \<longleftrightarrow> value128 a > value128 b"
    by (simp add: uint128_greater_def uint128_less_value)
  have LE: "uint128_le a b \<longleftrightarrow> value128 a \<le> value128 b"
    by (simp add: uint128_le_def uint128_less_value not_less)
  have GE: "uint128_ge a b \<longleftrightarrow> value128 a \<ge> value128 b"
    by (simp add: uint128_ge_def uint128_less_value not_less)
  have T: "uint128_less a b \<and> \<not> uint128_eq a b \<and> \<not> uint128_greater a b
    \<or> \<not> uint128_less a b \<and> uint128_eq a b \<and> \<not> uint128_greater a b
    \<or> \<not> uint128_less a b \<and> \<not> uint128_eq a b \<and> uint128_greater a b"
    unfolding L E G by linarith
  from T L E G LE GE limbs show ?thesis
    by (intro conjI)
qed

theorem uint128_compare_total_order_witness:
  "uint128_less (MakeUint128 1 0) (MakeUint128 1 5)
   \<and> \<not> uint128_eq (MakeUint128 1 0) (MakeUint128 1 5)
   \<and> \<not> uint128_greater (MakeUint128 1 0) (MakeUint128 1 5)
   \<and> value128 (MakeUint128 1 0) < value128 (MakeUint128 1 5)"
  using uint128_compare_total_order [of "MakeUint128 1 0" "MakeUint128 1 5"]
  by (simp add: uint128_less_def uint128_greater_def uint128_eq_def MakeUint128_def
      Uint128High64_def Uint128Low64_def)

section \<open>Shifts\<close>

lemma w128_Make: "w128 (MakeUint128 h l) = word_cat h l"
  by (simp add: w128_def MakeUint128_def Uint128High64_def Uint128Low64_def)

lemma unat_word_cat_64:
  "unat (word_cat (h :: 64 word) (l :: 64 word) :: 128 word) = unat h * 2 ^ 64 + unat l"
proof -
  have hb: "unat h < 2 ^ 64" and lb: "unat l < 2 ^ 64"
    using unsigned_less [of h] unsigned_less [of l] by simp_all
  then have "unat h + 1 \<le> 2 ^ 64" by simp
  then have "(unat h + 1) * 2 ^ 64 \<le> 2 ^ 64 * 2 ^ 64" by (rule mult_le_mono1)
  with lb have bound: "unat h * 2 ^ 64 + unat l < 2 ^ 128" by simp
  have "unat h < 2 ^ 128" "unat l < 2 ^ 128"
    using hb lb by simp_all
  then have uh: "unat (ucast h :: 128 word) = unat h"
    and ul: "unat (ucast l :: 128 word) = unat l"
    by (simp_all add: unsigned_ucast_eq take_bit_nat_eq_self)
  have "unat (push_bit 64 (ucast h :: 128 word)) = take_bit 128 (push_bit 64 (unat h))"
    by (simp add: unsigned_push_bit_eq uh)
  also have "\<dots> = unat h * 2 ^ 64"
    using bound by (simp add: push_bit_eq_mult take_bit_nat_eq_self)
  finally have ph: "unat (push_bit 64 (ucast h :: 128 word)) = unat h * 2 ^ 64" .
  have "unat (word_cat h l :: 128 word) = unat (push_bit 64 (ucast h :: 128 word) + ucast l)"
    by (simp add: word_cat_eq)
  also have "\<dots> = (unat h * 2 ^ 64 + unat l) mod 2 ^ 128"
    by (simp only: unat_word_ariths ph ul) simp
  also have "\<dots> = unat h * 2 ^ 64 + unat l"
    using bound by simp
  finally show ?thesis .
qed

lemma value128_w128: "value128 v = unat (w128 v)"
  by (simp add: value128_def w128_def unat_word_cat_64)

lemma shl_w128_lt64:
  assumes "0 < k" "k < (64::nat)"
  shows "word_cat (push_bit k h OR drop_bit (64 - k) l) (push_bit k l) = (push_bit k (word_cat (h::64 word) (l :: 64 word)) :: 128 word)"
  using assms
  by (intro bit_word_eqI) (auto simp add: bit_simps dest: bit_imp_le_length, (metis add.commute)+)

lemma shl_w128_ge64:
  assumes "64 \<le> k" "k < (128::nat)"
  shows "word_cat (push_bit (k - 64) l) (0 :: 64 word) = (push_bit k (word_cat (h::64 word) (l :: 64 word)) :: 128 word)"
  using assms
  by (intro bit_word_eqI) (auto simp add: bit_simps dest: bit_imp_le_length)

lemma shr_w128_lt64:
  assumes "0 < k" "k < (64::nat)"
  shows "word_cat (drop_bit k h) (drop_bit k l OR push_bit (64 - k) h) = (drop_bit k (word_cat (h::64 word) (l :: 64 word)) :: 128 word)"
  using assms
  by (intro bit_word_eqI) (auto simp add: bit_simps dest: bit_imp_le_length, (metis add.commute)+)

lemma shr_w128_ge64:
  assumes "64 \<le> k" "k < (128::nat)"
  shows "word_cat (0 :: 64 word) (drop_bit (k - 64) h) = (drop_bit k (word_cat (h::64 word) (l :: 64 word)) :: 128 word)"
  using assms
  by (intro bit_word_eqI) (auto simp add: bit_simps dest: bit_imp_le_length)

lemma uint128_shl_w128:
  assumes "0 \<le> k" "k < 128"
  shows "\<exists>r. uint128_shl v k = Some r \<and> w128 r = push_bit (nat k) (w128 v)"
proof -
  consider "k = 0" | "0 < k" "k < 64" | "64 \<le> k" using assms by linarith
  then show ?thesis
  proof cases
    case 1
    then show ?thesis by (simp add: uint128_shl_def)
  next
    case 2
    then have n: "0 < nat k" "nat k < 64" and e: "nat (64 - k) = 64 - nat k" by simp_all
    from 2 have "uint128_shl v k = Some (MakeUint128
        (push_bit (nat k) (Uint128High64 v) OR drop_bit (64 - nat k) (Uint128Low64 v))
        (push_bit (nat k) (Uint128Low64 v)))"
      by (simp add: uint128_shl_def shl64_def shr64_def e)
    then show ?thesis
      by (simp add: w128_Make shl_w128_lt64 [OF n] w128_def [of v])
  next
    case 3
    with assms have n: "64 \<le> nat k" "nat k < 128" and e: "nat (k - 64) = nat k - 64"
      by simp_all
    from 3 assms have "uint128_shl v k = Some (MakeUint128
        (push_bit (nat k - 64) (Uint128Low64 v)) 0)"
      by (simp add: uint128_shl_def shl64_def e)
    then show ?thesis
      by (simp add: w128_Make shl_w128_ge64 [OF n] w128_def [of v])
  qed
qed

lemma uint128_shr_w128:
  assumes "0 \<le> k" "k < 128"
  shows "\<exists>r. uint128_shr v k = Some r \<and> w128 r = drop_bit (nat k) (w128 v)"
proof -
  consider "k = 0" | "0 < k" "k < 64" | "64 \<le> k" using assms by linarith
  then show ?thesis
  proof cases
    case 1
    then show ?thesis by (simp add: uint128_shr_def)
  next
    case 2
    then have n: "0 < nat k" "nat k < 64" and e: "nat (64 - k) = 64 - nat k" by simp_all
    from 2 have "uint128_shr v k = Some (MakeUint128
        (drop_bit (nat k) (Uint128High64 v))
        (drop_bit (nat k) (Uint128Low64 v) OR push_bit (64 - nat k) (Uint128High64 v)))"
      by (simp add: uint128_shr_def shl64_def shr64_def e)
    then show ?thesis
      by (simp add: w128_Make shr_w128_lt64 [OF n] w128_def [of v])
  next
    case 3
    with assms have n: "64 \<le> nat k" "nat k < 128" and e: "nat (k - 64) = nat k - 64"
      by simp_all
    from 3 assms have "uint128_shr v k = Some (MakeUint128 0
        (drop_bit (nat k - 64) (Uint128High64 v)))"
      by (simp add: uint128_shr_def shr64_def e)
    then show ?thesis
      by (simp add: w128_Make shr_w128_ge64 [OF n, symmetric] w128_def [of v])
  qed
qed

lemma unat_push_bit_128: "unat (push_bit n (w :: 128 word)) = unat w * 2 ^ n mod 2 ^ 128"
  by (simp only: unsigned_push_bit_eq take_bit_eq_mod push_bit_nat_def) simp

lemma unat_drop_bit_128: "unat (drop_bit n (w :: 128 word)) = unat w div 2 ^ n"
  by (simp only: unat_drop_bit_eq drop_bit_nat_def)

lemma uint128_shl_value:
  assumes "0 \<le> k" "k < 128"
  shows "map_option value128 (uint128_shl v k) = Some (value128 v * 2 ^ nat k mod 2 ^ 128)"
  using uint128_shl_w128 [OF assms, of v]
  by (auto simp: value128_w128 unat_push_bit_128)

lemma uint128_shr_value:
  assumes "0 \<le> k" "k < 128"
  shows "map_option value128 (uint128_shr v k) = Some (value128 v div 2 ^ nat k)"
  using uint128_shr_w128 [OF assms, of v]
  by (auto simp: value128_w128 unat_drop_bit_128)

lemma uint128_shl_undefined_iff: "uint128_shl v k = None \<longleftrightarrow> k < 0 \<or> 128 \<le> k"
  by (auto simp: uint128_shl_def shl64_def shr64_def split: if_splits)

lemma uint128_shr_undefined_iff: "uint128_shr v k = None \<longleftrightarrow> k < 0 \<or> 128 \<le> k"
  by (auto simp: uint128_shr_def shl64_def shr64_def split: if_splits)

lemma w128_inject: "w128 a = w128 b \<longleftrightarrow> a = b"
  using value128_inject [of a b] by (auto simp: value128_w128)

lemma uint128_shl_shr_cancel:
  assumes "0 \<le> k" "k < 128" "value128 v < 2 ^ (128 - nat k)"
  shows "Option.bind (uint128_shl v k) (\<lambda>s. uint128_shr s k) = Some v"
proof -
  obtain r where r: "uint128_shl v k = Some r" "w128 r = push_bit (nat k) (w128 v)"
    using uint128_shl_w128 [OF assms(1,2)] by blast
  obtain r' where r': "uint128_shr r k = Some r'" "w128 r' = drop_bit (nat k) (w128 r)"
    using uint128_shr_w128 [OF assms(1,2)] by blast
  have k: "nat k < 128" using assms by simp
  have "value128 v * 2 ^ nat k < 2 ^ (128 - nat k) * 2 ^ nat k"
    using assms(3) by simp
  also have "\<dots> = (2::nat) ^ 128"
    using k by (simp flip: power_add)
  finally have "value128 v * 2 ^ nat k < 2 ^ 128" .
  then have "unat (w128 r') = unat (w128 v)"
    by (simp add: r'(2) r(2) unat_drop_bit_128 unat_push_bit_128 flip: value128_w128)
  then have "r' = v"
    by (simp add: w128_inject flip: word_unat_eq_iff)
  with r r' show ?thesis by simp
qed

text \<open>
  C4. For \<open>64 \<le> k < 128\<close>, \<open>v << k\<close> has the high limb \<open>lo << (k - 64)\<close> and the low limb
  0, and \<open>v >> k\<close> has the low limb \<open>hi >> (k - 64)\<close> and the high limb 0. For
  \<open>0 \<le> k < 128\<close> both shifts are defined, \<open>v << k\<close> is \<open>value(v) * 2^k mod 2^128\<close> and
  \<open>v >> k\<close> is \<open>value(v) div 2^k\<close>.
\<close>

theorem uint128_shift_ge64_and_value:
  "(64 \<le> k \<and> k < 128 \<longrightarrow>
      uint128_shl v k = Some (MakeUint128 (push_bit (nat (k - 64)) (Uint128Low64 v)) 0)
    \<and> uint128_shr v k = Some (MakeUint128 0 (drop_bit (nat (k - 64)) (Uint128High64 v))))
   \<and> (0 \<le> k \<and> k < 128 \<longrightarrow>
      map_option value128 (uint128_shl v k) = Some (value128 v * 2 ^ nat k mod 2 ^ 128)
    \<and> map_option value128 (uint128_shr v k) = Some (value128 v div 2 ^ nat k))"
proof (intro conjI impI)
  assume "64 \<le> k \<and> k < 128"
  then show "uint128_shl v k = Some (MakeUint128 (push_bit (nat (k - 64)) (Uint128Low64 v)) 0)"
    by (simp add: uint128_shl_def shl64_def)
next
  assume "64 \<le> k \<and> k < 128"
  then show "uint128_shr v k = Some (MakeUint128 0 (drop_bit (nat (k - 64)) (Uint128High64 v)))"
    by (simp add: uint128_shr_def shr64_def)
next
  assume "0 \<le> k \<and> k < 128"
  then show "map_option value128 (uint128_shl v k) = Some (value128 v * 2 ^ nat k mod 2 ^ 128)"
    by (simp add: uint128_shl_value)
next
  assume "0 \<le> k \<and> k < 128"
  then show "map_option value128 (uint128_shr v k) = Some (value128 v div 2 ^ nat k)"
    by (simp add: uint128_shr_value)
qed

theorem uint128_shift_ge64_and_value_witness:
  "uint128_shl (MakeUint128 1 3) 65 = Some (MakeUint128 6 0)
   \<and> uint128_shr (MakeUint128 6 1) 65 = Some (MakeUint128 0 3)
   \<and> map_option value128 (uint128_shl (MakeUint128 1 3) 65) = Some (6 * 2 ^ 64)
   \<and> map_option value128 (uint128_shr (MakeUint128 6 1) 65) = Some 3"
  using uint128_shift_ge64_and_value [of 65 "MakeUint128 1 3"]
    uint128_shift_ge64_and_value [of 65 "MakeUint128 6 1"]
  by (simp add: MakeUint128_def Uint128Low64_def Uint128High64_def value128_def)

text \<open>
  C8. For \<open>0 \<le> k < 64\<close> and a value whose top \<open>k\<close> bits are zero (it is below
  \<open>2^(128 - k)\<close>), shifting left by \<open>k\<close> and then right by \<open>k\<close> is defined and returns
  the value unchanged.
\<close>

theorem uint128_shl_shr_roundtrip:
  assumes "0 \<le> k" "k < 64" "value128 v < 2 ^ (128 - nat k)"
  shows "Option.bind (uint128_shl v k) (\<lambda>s. uint128_shr s k) = Some v"
  using assms by (intro uint128_shl_shr_cancel) simp_all

theorem uint128_shl_shr_roundtrip_witness:
  "(0::int) \<le> 8 \<and> (8::int) < 64 \<and> value128 (MakeUint128 5 7) < 2 ^ (128 - nat 8)
   \<and> Option.bind (uint128_shl (MakeUint128 5 7) 8) (\<lambda>s. uint128_shr s 8)
       = Some (MakeUint128 5 7)"
proof -
  have h: "value128 (MakeUint128 5 7) < 2 ^ (128 - nat 8)"
    by (simp add: value128_def MakeUint128_def Uint128Low64_def Uint128High64_def)
  show ?thesis
    using h uint128_shl_shr_roundtrip [of 8 "MakeUint128 5 7", OF _ _ h] by simp
qed

section \<open>Addition, subtraction and multiplication wrap modulo \<open>2^128\<close>\<close>

lemma int_value128:
  "int (value128 v) = uint (Uint128High64 v) * 2 ^ 64 + uint (Uint128Low64 v)"
  by (simp add: value128_def)

lemma int_value128_Make: "int (value128 (MakeUint128 h l)) = uint h * 2 ^ 64 + uint l"
  by (simp add: int_value128 MakeUint128_def Uint128High64_def Uint128Low64_def)

lemma value128_less: "value128 v < 2 ^ 128"
  using unsigned_less [of "w128 v"] by (simp add: value128_w128)

lemma High_Make [simp]: "Uint128High64 (MakeUint128 h l) = h"
  and Low_Make [simp]: "Uint128Low64 (MakeUint128 h l) = l"
  by (simp_all add: MakeUint128_def Uint128High64_def Uint128Low64_def)

lemma limbs_mod:
  fixes h l B :: int
  assumes "0 \<le> l" "l < B"
  shows "(h mod B) * B + l = (h * B + l) mod (B * B)"
proof -
  have B: "0 < B" using assms by simp
  have d: "(h * B + l) div B = h" using assms B by simp
  have m: "(h * B + l) mod B = l" using assms by simp
  have "(h * B + l) mod (B * B) = B * ((h * B + l) div B mod B) + (h * B + l) mod B"
    using B by (intro zmod_zmult2_eq) simp
  then have "(h * B + l) mod (B * B) = B * (h mod B) + l"
    by (simp only: d m)
  then show ?thesis by (simp only: mult.commute [of B "h mod B"])
qed

lemma uint128_add_value:
  "value128 (uint128_add a b) = (value128 a + value128 b) mod 2 ^ 128"
proof -
  define B :: int where "B = 2 ^ 64"
  define ha la hb lb where "ha = uint (Uint128High64 a)" and "la = uint (Uint128Low64 a)"
    and "hb = uint (Uint128High64 b)" and "lb = uint (Uint128Low64 b)"
  define c :: int where "c = (if la + lb < B then 0 else 1)"
  have BB: "B * B = 2 ^ 128" by (simp add: B_def)
  have iv: "int (value128 (MakeUint128 h l)) = uint h * B + uint l" for h l
    by (simp add: int_value128_Make B_def)
  have lo: "uint (Uint128Low64 a + Uint128Low64 b) = la + lb - c * B"
    by (simp add: uint_plus_if' la_def lb_def c_def B_def)
  have bounds: "0 \<le> la" "la < B" "0 \<le> lb" "lb < B"
    using uint_lt2p [of "Uint128Low64 a"] uint_lt2p [of "Uint128Low64 b"]
    by (simp_all add: la_def lb_def B_def)
  have carry: "Uint128Low64 a + Uint128Low64 b < Uint128Low64 a \<longleftrightarrow> c = 1"
    using bounds by (simp add: word_less_alt lo) (simp add: la_def c_def)
  have hi0: "uint (Uint128High64 a + Uint128High64 b) = (ha + hb) mod B"
    by (simp add: uint_word_ariths ha_def hb_def B_def)
  have hi1: "uint (Uint128High64 a + Uint128High64 b + 1) = (ha + hb + 1) mod B"
    by (simp add: uint_word_ariths ha_def hb_def B_def mod_simps)
  have "int (value128 (uint128_add a b)) = (ha + hb + c) mod B * B + (la + lb - c * B)"
  proof (cases "c = 1")
    case True
    then show ?thesis
      by (simp add: uint128_add_def Let_def carry iv hi1 lo)
  next
    case False
    then have "c = 0" by (simp add: c_def split: if_splits)
    with False show ?thesis
      by (simp add: uint128_add_def Let_def carry iv hi0 lo)
  qed
  also have "\<dots> = ((ha + hb + c) * B + (la + lb - c * B)) mod (B * B)"
    using bounds by (intro limbs_mod) (simp_all add: c_def)
  also have "(ha + hb + c) * B + (la + lb - c * B) = (ha * B + la) + (hb * B + lb)"
    by (simp add: algebra_simps)
  also have "\<dots> = int (value128 a) + int (value128 b)"
    by (simp add: int_value128 ha_def la_def hb_def lb_def B_def)
  finally have "int (value128 (uint128_add a b)) = int ((value128 a + value128 b) mod 2 ^ 128)"
    by (simp add: BB zmod_int)
  then show ?thesis by (simp only: int_int_eq)
qed

lemma uint128_sub_value:
  "int (value128 (uint128_sub a b)) = (int (value128 a) - int (value128 b)) mod 2 ^ 128"
proof -
  define B :: int where "B = 2 ^ 64"
  define ha la hb lb where "ha = uint (Uint128High64 a)" and "la = uint (Uint128Low64 a)"
    and "hb = uint (Uint128High64 b)" and "lb = uint (Uint128Low64 b)"
  define c :: int where "c = (if la < lb then 1 else 0)"
  have BB: "B * B = 2 ^ 128" by (simp add: B_def)
  have iv: "int (value128 (MakeUint128 h l)) = uint h * B + uint l" for h l
    by (simp add: int_value128_Make B_def)
  have lo: "uint (Uint128Low64 a - Uint128Low64 b) = la - lb + c * B"
    by (simp add: uint_sub_if' la_def lb_def c_def B_def)
  have bounds: "0 \<le> la" "la < B" "0 \<le> lb" "lb < B"
    using uint_lt2p [of "Uint128Low64 a"] uint_lt2p [of "Uint128Low64 b"]
    by (simp_all add: la_def lb_def B_def)
  have borrow: "Uint128Low64 a < Uint128Low64 b \<longleftrightarrow> c = 1"
    by (simp add: word_less_alt la_def lb_def c_def)
  have hi0: "uint (Uint128High64 a - Uint128High64 b) = (ha - hb) mod B"
    by (simp add: uint_word_ariths ha_def hb_def B_def)
  have hi1: "uint (Uint128High64 a - Uint128High64 b - 1) = (ha - hb - 1) mod B"
    by (simp add: uint_word_ariths ha_def hb_def B_def mod_simps)
  have "int (value128 (uint128_sub a b)) = (ha - hb - c) mod B * B + (la - lb + c * B)"
  proof (cases "c = 1")
    case True
    then show ?thesis
      by (simp add: uint128_sub_def Let_def borrow iv hi1 lo)
  next
    case False
    then have "c = 0" by (simp add: c_def split: if_splits)
    with False show ?thesis
      by (simp add: uint128_sub_def Let_def borrow iv hi0 lo)
  qed
  also have "\<dots> = ((ha - hb - c) * B + (la - lb + c * B)) mod (B * B)"
    using bounds by (intro limbs_mod) (simp_all add: c_def)
  also have "(ha - hb - c) * B + (la - lb + c * B) = (ha * B + la) - (hb * B + lb)"
    by (simp add: algebra_simps)
  also have "\<dots> = int (value128 a) - int (value128 b)"
    by (simp add: int_value128 ha_def la_def hb_def lb_def B_def)
  finally show ?thesis by (simp add: BB)
qed

lemma limbs_mod_nat:
  fixes h l B :: nat
  assumes "l < B"
  shows "(h mod B) * B + l = (h * B + l) mod (B * B)"
proof -
  have "int ((h mod B) * B + l) = (int h mod int B) * int B + int l"
    by (simp add: zmod_int)
  also have "\<dots> = (int h * int B + int l) mod (int B * int B)"
    using assms by (intro limbs_mod) simp_all
  also have "\<dots> = int ((h * B + l) mod (B * B))"
    by (simp add: zmod_int)
  finally show ?thesis by (simp only: int_int_eq)
qed

lemma value128_of_ull [simp]: "value128 (uint128_of_unsigned_long_long w) = unat w"
  by (simp add: value128_def uint128_of_unsigned_long_long_def Uint128High64_def
      Uint128Low64_def)

lemma value128_Make: "value128 (MakeUint128 h l) = unat h * 2 ^ 64 + unat l"
  by (simp add: value128_def)

lemma unat_low32: "unat ((w :: 64 word) AND 0xffffffff) = unat w mod 2 ^ 32"
proof -
  have "(0xffffffff :: 64 word) = mask 32" by (simp add: mask_eq_exp_minus_1)
  then have "unat (w AND 0xffffffff) = unat (take_bit 32 w)"
    by (simp only: take_bit_eq_mask)
  also have "\<dots> = take_bit 32 (unat w)" by (rule unsigned_take_bit_eq)
  also have "\<dots> = unat w mod 2 ^ 32" by (rule take_bit_eq_mod)
  finally show ?thesis .
qed

lemma unat_high32: "unat (drop_bit 32 (w :: 64 word)) = unat w div 2 ^ 32"
  by (simp only: unat_drop_bit_eq drop_bit_nat_def)

lemma product_limbs:
  fixes ha la hb lb a1 a0 b1 b0 S :: nat
  assumes "la = a1 * S + a0" "lb = b1 * S + b0"
  shows "(ha * (S * S) + la) * (hb * (S * S) + lb)
       = ha * hb * ((S * S) * (S * S))
         + ((ha * lb + la * hb + a1 * b1) * (S * S) + a0 * b0 + a1 * b0 * S + a0 * b1 * S)"
proof -
  have "la * lb = a1 * b1 * (S * S) + a0 * b0 + a1 * b0 * S + a0 * b1 * S"
    unfolding assms by (simp add: algebra_simps)
  then show ?thesis by (simp add: algebra_simps)
qed

lemma uint128_mul_value:
  "map_option value128 (uint128_mul a b) = Some (value128 a * value128 b mod 2 ^ 128)"
proof -
  define S :: nat where "S = 2 ^ 32"
  define B :: nat where "B = 2 ^ 64"
  define ha la hb lb where "ha = unat (Uint128High64 a)" and "la = unat (Uint128Low64 a)"
    and "hb = unat (Uint128High64 b)" and "lb = unat (Uint128Low64 b)"
  define a1 a0 b1 b0 where "a1 = la div S" and "a0 = la mod S"
    and "b1 = lb div S" and "b0 = lb mod S"
  define a32 a00 b32 b00 where "a32 = drop_bit 32 (Uint128Low64 a)"
    and "a00 = Uint128Low64 a AND 0xffffffff"
    and "b32 = drop_bit 32 (Uint128Low64 b)"
    and "b00 = Uint128Low64 b AND 0xffffffff"
  have SS: "S * S = B" and BB: "B * B = 2 ^ 128" by (simp_all add: S_def B_def)
  have u: "unat a32 = a1" "unat a00 = a0" "unat b32 = b1" "unat b00 = b0"
    by (simp_all add: a32_def a00_def b32_def b00_def a1_def a0_def b1_def b0_def
        unat_low32 unat_high32 la_def lb_def S_def)
  have "unat (Uint128Low64 a) < 2 ^ 64" "unat (Uint128Low64 b) < 2 ^ 64"
    using unsigned_less [of "Uint128Low64 a"] unsigned_less [of "Uint128Low64 b"]
    by simp_all
  then have "la < S * S" "lb < S * S"
    by (simp_all add: la_def lb_def S_def)
  then have "a1 < S" "b1 < S"
    unfolding a1_def b1_def by (simp_all only: less_mult_imp_div_less)
  moreover have "a0 < S" "b0 < S"
    by (simp_all add: a0_def b0_def S_def)
  ultimately have lt: "a1 < S" "a0 < S" "b1 < S" "b0 < S" by simp_all
  have prod_lt: "x * y < B" if "x < S" "y < S" for x y
  proof -
    have "x * y < S * S" using that by (intro mult_strict_mono) simp_all
    then show ?thesis by (simp only: SS)
  qed
  have p: "unat (a32 * b00) = a1 * b0" "unat (a00 * b32) = a0 * b1" "unat (a00 * b00) = a0 * b0"
    using prod_lt [OF lt(1) lt(4)] prod_lt [OF lt(2) lt(3)] prod_lt [OF lt(2) lt(4)]
    by (simp_all add: unat_word_ariths u B_def)
  define H where "H = ha * lb + la * hb + a1 * b1"
  define r0 where "r0 = MakeUint128 (Uint128High64 a * Uint128Low64 b +
                                Uint128Low64 a * Uint128High64 b + a32 * b32) (a00 * b00)"
  have "unat (Uint128High64 a * Uint128Low64 b + Uint128Low64 a * Uint128High64 b + a32 * b32)
      = H mod B"
    by (simp add: unat_word_ariths u mod_simps H_def ha_def la_def hb_def lb_def B_def)
  then have "value128 r0 = (H mod B) * B + a0 * b0"
    by (simp add: r0_def value128_Make p B_def)
  also have "\<dots> = (H * B + a0 * b0) mod 2 ^ 128"
    using prod_lt [OF lt(2) lt(4)] by (simp add: limbs_mod_nat BB)
  finally have v0: "value128 r0 = (H * B + a0 * b0) mod 2 ^ 128" .
  obtain t1 where t1: "uint128_shl (uint128_of_unsigned_long_long (a32 * b00)) 32 = Some t1"
    "value128 t1 = a1 * b0 * S mod 2 ^ 128"
    using uint128_shl_value [of 32 "uint128_of_unsigned_long_long (a32 * b00)"]
    by (auto simp: p S_def)
  obtain t2 where t2: "uint128_shl (uint128_of_unsigned_long_long (a00 * b32)) 32 = Some t2"
    "value128 t2 = a0 * b1 * S mod 2 ^ 128"
    using uint128_shl_value [of 32 "uint128_of_unsigned_long_long (a00 * b32)"]
    by (auto simp: p S_def)
  have m: "uint128_mul a b = Some (uint128_add (uint128_add r0 t1) t2)"
    by (simp add: uint128_mul_def Let_def t1 t2 r0_def
        flip: a32_def a00_def b32_def b00_def)
  have "value128 (uint128_add (uint128_add r0 t1) t2)
      = (H * B + a0 * b0 + a1 * b0 * S + a0 * b1 * S) mod 2 ^ 128"
    by (simp only: uint128_add_value v0 t1 t2 mod_simps)
  also have "\<dots> = (ha * hb * (B * B) + (H * B + a0 * b0 + a1 * b0 * S + a0 * b1 * S)) mod 2 ^ 128"
    by (simp only: BB) simp
  also have "ha * hb * (B * B) + (H * B + a0 * b0 + a1 * b0 * S + a0 * b1 * S)
      = (ha * B + la) * (hb * B + lb)"
    unfolding H_def SS [symmetric]
    by (rule product_limbs [symmetric]) (simp_all add: a1_def a0_def b1_def b0_def)
  also have "\<dots> = value128 a * value128 b"
    by (simp add: value128_def ha_def la_def hb_def lb_def B_def)
  finally show ?thesis by (simp add: m)
qed

text \<open>
  C3. \<open>+\<close>, \<open>-\<close> and \<open>*\<close> on \<^verbatim>\<open>uint128_t\<close> return the sum, the difference and the product
  of the values reduced modulo \<open>2^128\<close>. Addition and subtraction are total functions of
  the model, and the portable multiplication, whose two shifts by 32 could be undefined,
  always returns a result.
\<close>

theorem uint128_add_sub_mul_wrap:
  "value128 (uint128_add x y) = (value128 x + value128 y) mod 2 ^ 128
   \<and> int (value128 (uint128_sub x y)) = (int (value128 x) - int (value128 y)) mod 2 ^ 128
   \<and> map_option value128 (uint128_mul x y) = Some (value128 x * value128 y mod 2 ^ 128)"
  by (simp only: uint128_add_value uint128_sub_value uint128_mul_value)

theorem uint128_add_sub_mul_wrap_witness:
  "value128 (uint128_add Uint128Max (MakeUint128 0 2)) = 1
   \<and> int (value128 (uint128_sub (MakeUint128 0 2) Uint128Max)) = 3
   \<and> map_option value128 (uint128_mul Uint128Max Uint128Max) = Some 1"
proof -
  have v: "value128 Uint128Max = 2 ^ 128 - 1" "value128 (MakeUint128 0 2) = 2"
    by (simp_all add: value128_Make Uint128Max_def)
  show ?thesis
    using uint128_add_sub_mul_wrap [of Uint128Max "MakeUint128 0 2"]
      uint128_add_sub_mul_wrap [of "MakeUint128 0 2" Uint128Max]
      uint128_add_sub_mul_wrap [of Uint128Max Uint128Max]
    by (simp add: v)
qed

section \<open>Negation and absolute value\<close>

lemma uint128_neg_value_int:
  "int (value128 (uint128_neg v)) = (- int (value128 v)) mod 2 ^ 128"
proof -
  define B :: int where "B = 2 ^ 64"
  define h l where "h = uint (Uint128High64 v)" and "l = uint (Uint128Low64 v)"
  define c :: int where "c = (if l = 0 then 1 else 0)"
  have BB: "B * B = 2 ^ 128" by (simp add: B_def)
  have iv: "int (value128 (MakeUint128 x y)) = uint x * B + uint y" for x y
    by (simp add: int_value128_Make B_def)
  have bounds: "0 \<le> l" "l < B"
    using uint_lt2p [of "Uint128Low64 v"] by (simp_all add: l_def B_def)
  have nl: "NOT (Uint128Low64 v) + 1 = - Uint128Low64 v"
    by (simp add: minus_eq_not_plus_1)
  have z: "Uint128Low64 v = 0 \<longleftrightarrow> c = 1"
    by (simp add: c_def l_def uint_0_iff)
  have "uint (- Uint128Low64 v) = (- l) mod B"
    by (simp add: uint_word_ariths l_def B_def)
  also have "\<dots> = (1 - c) * B - l"
    using bounds by (auto simp: c_def zmod_zminus1_eq_if)
  finally have lo: "uint (- Uint128Low64 v) = (1 - c) * B - l" .
  have nh: "NOT (Uint128High64 v) = - Uint128High64 v - 1"
    by (simp add: not_eq_complement)
  have hi0: "uint (- Uint128High64 v - 1) = (- h - 1) mod B"
    by (simp add: uint_word_ariths h_def B_def mod_simps)
  have hi1: "uint (- Uint128High64 v) = (- h) mod B"
    by (simp add: uint_word_ariths h_def B_def)
  have "int (value128 (uint128_neg v)) = (- h - 1 + c) mod B * B + ((1 - c) * B - l)"
  proof (cases "c = 1")
    case True
    with z have "Uint128Low64 v = 0" "l = 0" by (simp_all add: l_def)
    with True show ?thesis
      by (simp add: uint128_neg_def Let_def nl nh iv hi1)
  next
    case False
    then have "c = 0" by (simp add: c_def split: if_splits)
    moreover from False z have "Uint128Low64 v \<noteq> 0" by simp
    ultimately show ?thesis
      by (simp add: uint128_neg_def Let_def nl nh iv hi0 lo)
  qed
  also have "\<dots> = ((- h - 1 + c) * B + ((1 - c) * B - l)) mod (B * B)"
    using bounds by (intro limbs_mod) (auto simp add: c_def)
  also have "(- h - 1 + c) * B + ((1 - c) * B - l) = - (h * B + l)"
    by (simp add: algebra_simps)
  also have "\<dots> = - int (value128 v)"
    by (simp add: int_value128 h_def l_def B_def)
  finally show ?thesis by (simp add: BB)
qed

lemma uint128_neg_value:
  "value128 (uint128_neg v) = (2 ^ 128 - value128 v) mod 2 ^ 128"
proof -
  have le: "value128 v \<le> 2 ^ 128" using value128_less [of v] by simp
  have "int (value128 (uint128_neg v)) = (- int (value128 v)) mod 2 ^ 128"
    by (rule uint128_neg_value_int)
  also have "\<dots> = (2 ^ 128 - int (value128 v)) mod 2 ^ 128"
    by (simp add: mod_simps)
  also have "\<dots> = int ((2 ^ 128 - value128 v) mod 2 ^ 128)"
    using le by (simp add: zmod_int of_nat_diff)
  finally show ?thesis by (simp only: int_int_eq)
qed

lemma value128_of_int_0 [simp]: "value128 (uint128_of_int 0) = 0"
  by (simp add: value128_def uint128_of_int_def Uint128High64_def Uint128Low64_def)

lemma value128_of_int_1 [simp]: "value128 (uint128_of_int 1) = 1"
  by (simp add: value128_def uint128_of_int_def Uint128High64_def Uint128Low64_def
      word_sless_alt)

lemma uint128_add_neg_zero: "uint128_add v (uint128_neg v) = uint128_of_int 0"
proof -
  have lt: "value128 v < 2 ^ 128" by (rule value128_less)
  have "value128 (uint128_add v (uint128_neg v))
      = (value128 v + (2 ^ 128 - value128 v)) mod 2 ^ 128"
    by (simp only: uint128_add_value uint128_neg_value mod_simps)
  also have "value128 v + (2 ^ 128 - value128 v) = 2 ^ 128"
    using lt by simp
  finally have "value128 (uint128_add v (uint128_neg v)) = value128 (uint128_of_int 0)"
    by simp
  then show ?thesis by (simp only: value128_inject)
qed

lemma sint_uint_64:
  "sint (x :: 64 word) = uint x - (if x <s 0 then 2 ^ 64 else 0)"
proof -
  have b: "bit (uint x) 63 \<longleftrightarrow> x <s 0"
    using bit_last_iff [of x] by (simp add: word_sless_alt bit_uint_iff)
  have "sint x = signed_take_bit 63 (uint x)"
    by (simp add: sint_uint)
  also have "\<dots> = take_bit 64 (uint x) - 2 ^ 64 * of_bool (bit (uint x) 63)"
    by (simp add: signed_take_bit_eq_take_bit_minus)
  also have "take_bit 64 (uint x) = uint x"
    using uint_lt2p [of x] by (simp add: take_bit_int_eq_self)
  finally show ?thesis by (simp add: b)
qed

lemma int_value128_of_int128:
  "int (value128 (uint128_of_int128 s))
     = svalue128 s + (if Int128High64 s <s 0 then 2 ^ 128 else 0)"
  by (simp add: int_value128 uint128_of_int128_def Uint128High64_def Uint128Low64_def
      svalue128_def sint_uint_64)

lemma signed_limbs:
  fixes h l :: int
  assumes "- (2 ^ 63) \<le> h" "h < 2 ^ 63" "0 \<le> l" "l < 2 ^ 64"
  shows "- (2 ^ 127) \<le> h * 2 ^ 64 + l" "h * 2 ^ 64 + l < 2 ^ 127"
    "h < 0 \<longleftrightarrow> h * 2 ^ 64 + l < 0"
  using assms by auto

lemma svalue128_range: "- (2 ^ 127) \<le> svalue128 s" "svalue128 s < 2 ^ 127"
proof -
  have h: "- (2 ^ 63) \<le> sint (Int128High64 s)" "sint (Int128High64 s) < 2 ^ 63"
    using sint_ge [of "Int128High64 s"] sint_lt [of "Int128High64 s"] by simp_all
  have l0: "0 \<le> uint (Int128Low64 s)" by (rule uint_nonnegative)
  have l1: "uint (Int128Low64 s) < 2 ^ 64"
    using uint_lt2p [of "Int128Low64 s"] by simp
  from h l0 l1 show "- (2 ^ 127) \<le> svalue128 s" "svalue128 s < 2 ^ 127"
    unfolding svalue128_def by (rule signed_limbs)+
qed

lemma svalue128_neg_iff: "Int128High64 s <s 0 \<longleftrightarrow> svalue128 s < 0"
proof -
  have l0: "0 \<le> uint (Int128Low64 s)" by (rule uint_nonnegative)
  have l1: "uint (Int128Low64 s) < 2 ^ 64"
    using uint_lt2p [of "Int128Low64 s"] by simp
  have h: "- (2 ^ 63) \<le> sint (Int128High64 s)" "sint (Int128High64 s) < 2 ^ 63"
    using sint_ge [of "Int128High64 s"] sint_lt [of "Int128High64 s"] by simp_all
  have "sint (Int128High64 s) < 0 \<longleftrightarrow> svalue128 s < 0"
    unfolding svalue128_def using h l0 l1 by (rule signed_limbs)
  then show ?thesis by (simp add: word_sless_alt)
qed

lemma UnsignedAbsoluteValue_value:
  "int (value128 (UnsignedAbsoluteValue s)) = \<bar>svalue128 s\<bar>"
proof (cases "Int128High64 s <s 0")
  case True
  then have neg: "svalue128 s < 0" by (simp add: svalue128_neg_iff)
  have "int (value128 (UnsignedAbsoluteValue s))
      = (- (svalue128 s + 2 ^ 128)) mod 2 ^ 128"
    using True
    by (simp only: UnsignedAbsoluteValue_def uint128_neg_value_int int_value128_of_int128
        if_True)
  also have "\<dots> = (- svalue128 s) mod 2 ^ 128"
    by (simp add: mod_simps)
  also have "\<dots> = - svalue128 s"
    using neg svalue128_range(1) [of s] by simp
  finally show ?thesis using neg by simp
next
  case False
  then have "0 \<le> svalue128 s" by (simp add: svalue128_neg_iff)
  with False show ?thesis
    by (simp add: UnsignedAbsoluteValue_def int_value128_of_int128)
qed

lemma svalue128_Int128Min: "svalue128 Int128Min = - (2 ^ 127)"
  by (simp add: svalue128_def Int128Min_def MakeInt128_def Int128High64_def Int128Low64_def)

text \<open>
  C9. Unary minus on \<^verbatim>\<open>uint128_t\<close> returns \<open>(2^128 - value(v)) mod 2^128\<close>, so \<open>v + (-v) == 0\<close>
  for every \<open>v\<close>; and \<^verbatim>\<open>UnsignedAbsoluteValue(s)\<close> is the absolute value of the
  two's-complement value of \<open>s\<close> for every \<^verbatim>\<open>int128_t\<close> \<open>s\<close>, which is \<open>2^127\<close> at
  \<^verbatim>\<open>Int128Min()\<close>.
\<close>

theorem uint128_neg_twos_complement:
  "value128 (uint128_neg v) = (2 ^ 128 - value128 v) mod 2 ^ 128
   \<and> uint128_eq (uint128_add v (uint128_neg v)) (uint128_of_int 0)
   \<and> int (value128 (UnsignedAbsoluteValue s)) = \<bar>svalue128 s\<bar>
   \<and> value128 (UnsignedAbsoluteValue Int128Min) = 2 ^ 127"
proof -
  have "int (value128 (UnsignedAbsoluteValue Int128Min)) = int (2 ^ 127)"
    by (simp add: UnsignedAbsoluteValue_value svalue128_Int128Min)
  then have "value128 (UnsignedAbsoluteValue Int128Min) = 2 ^ 127"
    by (simp only: int_int_eq)
  then show ?thesis
    by (simp add: uint128_neg_value uint128_add_neg_zero uint128_eq_iff
        UnsignedAbsoluteValue_value)
qed

theorem uint128_neg_twos_complement_witness:
  "value128 (uint128_neg (MakeUint128 0 1)) = 2 ^ 128 - 1
   \<and> uint128_eq (uint128_add (MakeUint128 0 1) (uint128_neg (MakeUint128 0 1)))
        (uint128_of_int 0)
   \<and> int (value128 (UnsignedAbsoluteValue (MakeInt128 0xFFFFFFFFFFFFFFFF 0xFFFFFFFFFFFFFFFD)))
       = 3"
proof -
  have "svalue128 (MakeInt128 0xFFFFFFFFFFFFFFFF 0xFFFFFFFFFFFFFFFD) = - 3"
    by (simp add: svalue128_def MakeInt128_def Int128High64_def Int128Low64_def)
  moreover have "value128 (MakeUint128 0 1) = 1"
    by (simp add: value128_Make)
  ultimately show ?thesis
    using uint128_neg_twos_complement
      [of "MakeUint128 0 1" "MakeInt128 0xFFFFFFFFFFFFFFFF 0xFFFFFFFFFFFFFFFD"]
    by simp
qed

section \<open>Leading zeros\<close>

lemma bitlen_div_power:
  fixes x :: int
  assumes "0 < x div 2 ^ k"
  shows "bitlen (x div 2 ^ k) = bitlen x - int k"
  using assms
proof (induction k arbitrary: x)
  case 0
  then show ?case by simp
next
  case (Suc k)
  have e: "x div 2 ^ Suc k = (x div 2) div 2 ^ k"
    by (simp add: zdiv_zmult2_eq)
  with Suc.prems have p: "0 < (x div 2) div 2 ^ k" by simp
  then have "(2::int) ^ k \<le> x div 2"
    by (simp add: pos_imp_zdiv_pos_iff)
  moreover have "(1::int) \<le> 2 ^ k" by simp
  ultimately have "0 < x div 2" by linarith
  then have "0 < x" by (simp add: pos_imp_zdiv_pos_iff)
  then have "bitlen x = bitlen (x div 2) + 1"
    by (subst compute_bitlen) simp
  with Suc.IH [OF p] e show ?case by simp
qed

lemma clz_nibble_table_all:
  "list_all (\<lambda>i. clz_nibble_table ! i = 4 - bitlen (int i)) [0..<16]"
  by code_simp

lemma clz_nibble_table_bitlen:
  assumes "i < 16"
  shows "clz_nibble_table ! i = 4 - bitlen (int i)"
proof -
  from assms have "i \<in> set [0..<16]" by simp
  with clz_nibble_table_all show ?thesis
    unfolding list_all_iff by blast
qed

lemma int_unat_div_power: "int (unat (m :: 64 word) div 2 ^ k) = uint m div 2 ^ k"
  by (simp add: zdiv_int)

lemma uint_drop_bit_64: "uint (drop_bit k (m :: 64 word)) = uint m div 2 ^ k"
proof -
  have "uint (drop_bit k m) = int (unat (drop_bit k m))" by simp
  also have "\<dots> = int (unat m div 2 ^ k)"
    by (simp only: unat_drop_bit_eq drop_bit_nat_def)
  also have "\<dots> = uint m div 2 ^ k"
    by (rule int_unat_div_power)
  finally show ?thesis .
qed

lemma clz_step_inv:
  assumes "clz_inv (k + k) n s"
  shows "clz_inv k n (clz_step k s)"
proof -
  obtain z m where s: "s = (z, m)" by (cases s)
  from assms have w: "unat m < 2 ^ (k + k)"
    and z: "z = 60 - (bitlen (uint n) - bitlen (uint m))"
    by (simp_all add: clz_inv_def s)
  show ?thesis
  proof (cases "drop_bit k m = 0")
    case True
    then have "uint m div 2 ^ k = 0"
      using uint_drop_bit_64 [of k m] by simp
    then have "int (unat m div 2 ^ k) = 0"
      by (simp only: int_unat_div_power)
    then have "unat m div 2 ^ k = 0"
      by simp
    then have "unat m < 2 ^ k"
      by (simp add: div_eq_0_iff)
    moreover have "clz_step k s = (z, m)"
      using True by (simp add: clz_step_def s)
    ultimately show ?thesis
      using z by (simp add: clz_inv_def)
  next
    case False
    then have "uint (drop_bit k m) \<noteq> 0" by (simp add: uint_0_iff)
    then have pos: "0 < uint m div 2 ^ k"
      using uint_nonnegative [of "drop_bit k m"] by (simp add: uint_drop_bit_64)
    have "unat m < 2 ^ k * 2 ^ k" using w by (simp add: power_add)
    then have "unat (drop_bit k m) < 2 ^ k"
      by (simp add: unat_drop_bit_eq drop_bit_nat_def div_less_iff_less_mult)
    moreover have "bitlen (uint (drop_bit k m)) = bitlen (uint m) - int k"
      unfolding uint_drop_bit_64 using pos by (rule bitlen_div_power)
    moreover have "clz_step k s = (z - int k, drop_bit k m)"
      using False by (simp add: clz_step_def s)
    ultimately show ?thesis
      using z by (simp add: clz_inv_def)
  qed
qed

lemma CountLeadingZeros64Slow_bitlen:
  "CountLeadingZeros64Slow n = Some (64 - bitlen (uint n))"
proof -
  have "unat n < 2 ^ 64"
    using unsigned_less [of n] by simp
  then have "clz_inv (32 + 32) n (60, n)"
    by (simp add: clz_inv_def)
  then have "clz_inv (16 + 16) n (clz_step 32 (60, n))"
    using clz_step_inv [of 32 n "(60, n)"] by simp
  then have "clz_inv (8 + 8) n (clz_step 16 (clz_step 32 (60, n)))"
    using clz_step_inv [of 16 n] by simp
  then have "clz_inv (4 + 4) n (clz_step 8 (clz_step 16 (clz_step 32 (60, n))))"
    using clz_step_inv [of 8 n] by simp
  then have i: "clz_inv 4 n (clz_step 4 (clz_step 8 (clz_step 16 (clz_step 32 (60, n)))))"
    using clz_step_inv [of 4 n] by simp
  obtain z m where s: "clz_step 4 (clz_step 8 (clz_step 16 (clz_step 32 (60, n)))) = (z, m)"
    by (cases "clz_step 4 (clz_step 8 (clz_step 16 (clz_step 32 (60, n))))")
  from i have u: "unat m < 16" and z: "z = 60 - (bitlen (uint n) - bitlen (uint m))"
    unfolding clz_inv_def s by simp_all
  have len: "length clz_nibble_table = 16" by (simp add: clz_nibble_table_def)
  have "clz_nibble_at m = Some (clz_nibble_table ! unat m)"
    unfolding clz_nibble_at_def len using u by (simp only: if_True)
  then have "clz_nibble_at m = Some (4 - bitlen (uint m))"
    by (simp only: clz_nibble_table_bitlen [OF u] of_nat_unat)
  then show ?thesis
    unfolding CountLeadingZeros64Slow_def s z by simp
qed

lemma CountLeadingZeros64_gnuc_bitlen:
  "CountLeadingZeros64_gnuc n = Some (64 - bitlen (uint n))"
  by (simp add: CountLeadingZeros64_gnuc_def builtin_clzll_def)

lemma CountLeadingZeros64_msvc_x64_bitlen:
  "CountLeadingZeros64_msvc_x64 n = Some (64 - bitlen (uint n))"
  by (simp add: CountLeadingZeros64_msvc_x64_def BitScanReverse_def)

lemma uint_ucast_32:
  assumes "uint (x :: 64 word) < 2 ^ 32"
  shows "uint (ucast x :: 32 word) = uint x"
proof -
  have "uint (ucast x :: 32 word) = take_bit 32 (uint x)"
    by (simp add: unsigned_ucast_eq)
  also have "\<dots> = uint x"
    using assms by (intro take_bit_int_eq_self) simp_all
  finally show ?thesis .
qed

lemma CountLeadingZeros64_msvc_bitlen:
  "CountLeadingZeros64_msvc n = Some (64 - bitlen (uint n))"
proof (cases "drop_bit 32 n = 0")
  case True
  then have "uint n div 2 ^ 32 = 0"
    using uint_drop_bit_64 [of 32 n] by simp
  then have "uint n < 2 ^ 32"
    using uint_nonnegative [of n] by (auto simp add: zdiv_eq_0_iff)
  then have u: "uint (ucast n :: 32 word) = uint n"
    by (rule uint_ucast_32)
  have z: "(ucast n :: 32 word) = 0 \<longleftrightarrow> n = 0"
    unfolding word_uint_eq_iff u by simp
  show ?thesis
    using True by (simp add: CountLeadingZeros64_msvc_def BitScanReverse_def z u)
next
  case False
  have "uint n < 2 ^ 64" using uint_lt2p [of n] by simp
  then have "uint n div 2 ^ 32 < 2 ^ 32" by simp
  then have "uint (drop_bit 32 n) < 2 ^ 32" by (simp only: uint_drop_bit_64)
  then have u: "uint (ucast (drop_bit 32 n) :: 32 word) = uint (drop_bit 32 n)"
    by (rule uint_ucast_32)
  have nz: "(ucast (drop_bit 32 n) :: 32 word) \<noteq> 0"
    unfolding word_uint_eq_iff u using False by (simp add: uint_0_iff)
  from False have "uint (drop_bit 32 n) \<noteq> 0" by (simp add: uint_0_iff)
  then have pos: "0 < uint n div 2 ^ 32"
    using uint_nonnegative [of "drop_bit 32 n"] by (simp add: uint_drop_bit_64)
  have b: "bitlen (uint (drop_bit 32 n)) = bitlen (uint n) - 32"
    unfolding uint_drop_bit_64 using bitlen_div_power [OF pos] by simp
  show ?thesis
    using False nz by (simp add: CountLeadingZeros64_msvc_def BitScanReverse_def u b)
qed

text \<open>
  C10. \<^verbatim>\<open>CountLeadingZeros64Slow(n)\<close> performs no out-of-bounds table read and returns 64
  minus the bit length of \<open>n\<close> for every 64-bit \<open>n\<close>, which is 64 at \<open>n = 0\<close>; and each of
  the four branches of \<^verbatim>\<open>CountLeadingZeros64\<close> returns 64 at 0 (they agree on every
  input).
\<close>

theorem CountLeadingZeros64_total:
  "CountLeadingZeros64Slow n = Some (64 - bitlen (uint n))
   \<and> CountLeadingZeros64Slow 0 = Some 64
   \<and> CountLeadingZeros64 0 = Some 64
   \<and> CountLeadingZeros64_msvc_x64 0 = Some 64
   \<and> CountLeadingZeros64_msvc 0 = Some 64
   \<and> CountLeadingZeros64_gnuc 0 = Some 64
   \<and> CountLeadingZeros64 n = CountLeadingZeros64Slow n
   \<and> CountLeadingZeros64_msvc_x64 n = CountLeadingZeros64Slow n
   \<and> CountLeadingZeros64_msvc n = CountLeadingZeros64Slow n
   \<and> CountLeadingZeros64_gnuc n = CountLeadingZeros64Slow n"
  by (simp add: CountLeadingZeros64Slow_bitlen CountLeadingZeros64_def
      CountLeadingZeros64_gnuc_bitlen CountLeadingZeros64_msvc_x64_bitlen
      CountLeadingZeros64_msvc_bitlen)

theorem CountLeadingZeros64_total_witness:
  "CountLeadingZeros64Slow 0 = Some 64 \<and> CountLeadingZeros64Slow 1 = Some 63
   \<and> CountLeadingZeros64Slow 0x8000000000000000 = Some 0"
proof -
  have "bitlen 1 = 1" "bitlen 0x8000000000000000 = 64"
    using bitlen_twopow_add_eq [of 0 0] bitlen_twopow_add_eq [of 0 63] by simp_all
  then show ?thesis
    using CountLeadingZeros64_total [of 0] CountLeadingZeros64_total [of 1]
      CountLeadingZeros64_total [of "0x8000000000000000"]
    by simp
qed

section \<open>Construction from native integers\<close>

lemma uint_scast_64: "uint (scast (x :: 'a::len word) :: 64 word) = sint x mod 2 ^ 64"
  by (simp only: scast_eq uint_word_of_int) simp

lemma sign_extend_value:
  fixes s :: int
  assumes "- (2 ^ 63) \<le> s" "s < 2 ^ 63"
  shows "(if s < 0 then 0xFFFFFFFFFFFFFFFF else 0) * 2 ^ 64 + s mod 2 ^ 64 = s mod 2 ^ 128"
proof (cases "s < 0")
  case True
  have "(s + 2 ^ 64) mod 2 ^ 64 = s + 2 ^ 64"
    using assms True by (intro mod_pos_pos_trivial) simp_all
  then have a: "s mod 2 ^ 64 = s + 2 ^ 64" by simp
  have "(s + 2 ^ 128) mod 2 ^ 128 = s + 2 ^ 128"
    using assms True by (intro mod_pos_pos_trivial) simp_all
  then have b: "s mod 2 ^ 128 = s + 2 ^ 128" by simp
  from True show ?thesis unfolding a b by simp
next
  case False
  with assms have "s mod 2 ^ 64 = s" "s mod 2 ^ 128 = s" by simp_all
  with False show ?thesis by simp
qed

lemma uint128_of_signed_value:
  fixes x :: "'a::len word"
  assumes "LENGTH('a) \<le> 64"
  shows "uint (if x <s 0 then 0xFFFFFFFFFFFFFFFF else 0 :: 64 word) * 2 ^ 64
           + uint (scast x :: 64 word) = sint x mod 2 ^ 128"
proof -
  have "(2::int) ^ (LENGTH('a) - 1) \<le> 2 ^ 63"
    using assms by (intro power_increasing) simp_all
  then have r: "- (2 ^ 63) \<le> sint x" "sint x < 2 ^ 63"
    using sint_ge [of x] sint_lt [of x] by linarith+
  have "uint (if x <s 0 then 0xFFFFFFFFFFFFFFFF else 0 :: 64 word)
      = (if sint x < 0 then 0xFFFFFFFFFFFFFFFF else 0)"
    by (simp add: word_sless_alt)
  then show ?thesis
    using sign_extend_value [OF r] by (simp only: uint_scast_64)
qed

lemma value128_of_int: "int (value128 (uint128_of_int i)) = sint i mod 2 ^ 128"
  using uint128_of_signed_value [of i]
  by (simp add: int_value128 uint128_of_int_def Uint128High64_def Uint128Low64_def)

lemma value128_of_long_long: "int (value128 (uint128_of_long_long i)) = sint i mod 2 ^ 128"
  using uint128_of_signed_value [of i]
  by (simp add: int_value128 uint128_of_long_long_def Uint128High64_def Uint128Low64_def)

text \<open>
  C7. Constructing a \<^verbatim>\<open>uint128_t\<close> from a signed native integer (\<^verbatim>\<open>int\<close>, \<^verbatim>\<open>long long\<close>) sets
  the high limb to all ones when the source is negative and to zero otherwise, and the
  low limb to the 64-bit two's-complement pattern of the source, so the value is the
  source reduced modulo \<open>2^128\<close>; constructing from an unsigned native integer sets the
  high limb to zero and the low limb to the source. Converting any \<open>v\<close> to
  \<^verbatim>\<open>unsigned long long\<close> and constructing a \<^verbatim>\<open>uint128_t\<close> from the result gives the low 64
  bits of \<open>v\<close> (with a zero high limb).
\<close>

theorem uint128_of_native_sign_extends:
  "Uint128High64 (uint128_of_int i) = (if sint i < 0 then - 1 else 0)
   \<and> uint (Uint128Low64 (uint128_of_int i)) = sint i mod 2 ^ 64
   \<and> int (value128 (uint128_of_int i)) = sint i mod 2 ^ 128
   \<and> Uint128High64 (uint128_of_long_long l) = (if sint l < 0 then - 1 else 0)
   \<and> Uint128Low64 (uint128_of_long_long l) = l
   \<and> int (value128 (uint128_of_long_long l)) = sint l mod 2 ^ 128
   \<and> Uint128High64 (uint128_of_unsigned_int u) = 0
   \<and> unat (Uint128Low64 (uint128_of_unsigned_int u)) = unat u
   \<and> Uint128High64 (uint128_of_unsigned_long_long w) = 0
   \<and> Uint128Low64 (uint128_of_unsigned_long_long w) = w
   \<and> Uint128Low64 (uint128_of_unsigned_long_long (uint128_to_unsigned_long_long v))
       = Uint128Low64 v
   \<and> Uint128High64 (uint128_of_unsigned_long_long (uint128_to_unsigned_long_long v)) = 0"
proof -
  have "unat (ucast u :: 64 word) = unat u"
    using unsigned_less [of u, where 'a = nat]
    by (simp add: unsigned_ucast_eq take_bit_nat_eq_self)
  then show ?thesis
    by (simp add: value128_of_int value128_of_long_long)
      (simp add: uint128_of_int_def uint128_of_long_long_def uint128_of_unsigned_int_def
        uint128_of_unsigned_long_long_def uint128_to_unsigned_long_long_def
        Uint128High64_def Uint128Low64_def word_sless_alt uint_scast_64)
qed

theorem uint128_of_native_sign_extends_witness:
  "Uint128High64 (uint128_of_int (- 5)) = - 1
   \<and> uint (Uint128Low64 (uint128_of_int (- 5))) = 2 ^ 64 - 5
   \<and> int (value128 (uint128_of_int (- 5))) = 2 ^ 128 - 5
   \<and> Uint128Low64 (uint128_of_unsigned_long_long
         (uint128_to_unsigned_long_long (MakeUint128 7 9))) = 9"
  using uint128_of_native_sign_extends [of "- 5" 0 0 0 "MakeUint128 7 9"]
  by simp

section \<open>Unsigned division\<close>

lemma bitlen_limbs:
  fixes h l :: int
  assumes "0 < h" "0 \<le> l" "l < 2 ^ 64"
  shows "bitlen (h * 2 ^ 64 + l) = bitlen h + 64"
proof -
  have "(h * 2 ^ 64 + l) div 2 ^ 64 = h" using assms by simp
  then have "bitlen h = bitlen (h * 2 ^ 64 + l) - int 64"
    using bitlen_div_power [of "h * 2 ^ 64 + l" 64] assms(1) by simp
  then show ?thesis by simp
qed

lemma Fls128_bitlen:
  assumes "value128 n \<noteq> 0"
  shows "Fls128 n = Some (bitlen (int (value128 n)) - 1)"
proof (cases "Uint128High64 n = 0")
  case True
  with assms have "Uint128Low64 n \<noteq> 0"
    by (auto simp: value128_def)
  with True show ?thesis
    by (simp add: Fls128_def Let_def ABSL_INTERNAL_ASSUME_def CountLeadingZeros64_def
        CountLeadingZeros64Slow_bitlen int_value128)
next
  case False
  then have "uint (Uint128High64 n) \<noteq> 0" by (simp add: uint_0_iff)
  then have "0 < uint (Uint128High64 n)"
    using uint_nonnegative [of "Uint128High64 n"] by linarith
  then have "bitlen (int (value128 n)) = bitlen (uint (Uint128High64 n)) + 64"
    unfolding int_value128
    using uint_lt2p [of "Uint128Low64 n"] by (intro bitlen_limbs) simp_all
  with False show ?thesis
    by (simp add: Fls128_def Let_def ABSL_INTERNAL_ASSUME_def CountLeadingZeros64_def
        CountLeadingZeros64Slow_bitlen)
qed

lemma Fls128_bounds:
  assumes "value128 n \<noteq> 0"
  shows "\<exists>f. Fls128 n = Some (int f) \<and> f < 128 \<and> 2 ^ f \<le> value128 n \<and> value128 n < 2 ^ (f + 1)"
proof -
  define x where "x = int (value128 n)"
  have pos: "0 < x" using assms by (simp add: x_def)
  then have b1: "1 \<le> bitlen x" by (simp add: bitlen_alt_def)
  define f where "f = nat (bitlen x - 1)"
  have fb: "int f = bitlen x - 1" "nat (bitlen x) = f + 1"
    using b1 by (simp_all add: f_def)
  from bitlen_bounds [OF pos] have "2 ^ f \<le> x" "x < 2 ^ (f + 1)"
    by (simp_all add: fb f_def)
  then have v: "2 ^ f \<le> value128 n" "value128 n < 2 ^ (f + 1)"
    unfolding x_def
    by (metis of_nat_le_iff of_nat_numeral of_nat_power,
        metis of_nat_less_iff of_nat_numeral of_nat_power)
  have "(2::nat) ^ f < 2 ^ 128"
    using v(1) value128_less [of n] by (rule le_less_trans)
  then have "f < 128" by (simp only: power_strict_increasing_iff [of "2::nat"] one_less_numeral_iff semiring_norm)
  moreover have "Fls128 n = Some (int f)"
    using Fls128_bitlen [OF assms] fb(1) by (simp add: x_def)
  ultimately show ?thesis using v by blast
qed

lemma uint128_ge_value: "uint128_ge a b \<longleftrightarrow> value128 b \<le> value128 a"
  by (simp add: uint128_ge_def uint128_less_value not_less)

lemma even_unat_64: "even (unat (w :: 64 word)) \<longleftrightarrow> even w"
proof -
  have "bit (unat w) 0 \<longleftrightarrow> bit w 0" by (simp add: bit_unsigned_iff)
  then show ?thesis by (simp only: bit_0) simp
qed

lemma uint128_or_one_value:
  assumes "even (value128 q)"
  shows "value128 (uint128_or q (uint128_of_int 1)) = value128 q + 1"
proof -
  have e: "even (Uint128Low64 q)"
    using assms by (simp add: value128_def even_unat_64)
  have one: "Uint128High64 (uint128_of_int 1) = 0" "Uint128Low64 (uint128_of_int 1) = 1"
    by (simp_all add: uint128_of_int_def Uint128High64_def Uint128Low64_def word_sless_alt)
  have "Uint128Low64 q OR 1 = Uint128Low64 q + 1"
    using e by (simp add: or_one_eq)
  moreover have "1 + Uint128Low64 q \<noteq> 0"
    using e by (metis add.commute even_add even_zero odd_one)
  then have "unat (1 + Uint128Low64 q) = Suc (unat (Uint128Low64 q))"
    by (rule unatSuc)
  ultimately show ?thesis
    by (simp add: uint128_or_def one value128_Make add.commute) (simp add: value128_def)
qed

lemma uint128_sub_value_nat:
  assumes "value128 b \<le> value128 a"
  shows "value128 (uint128_sub a b) = value128 a - value128 b"
proof -
  have "int (value128 (uint128_sub a b)) = (int (value128 a) - int (value128 b)) mod 2 ^ 128"
    by (rule uint128_sub_value)
  also have "\<dots> = int (value128 a) - int (value128 b)"
    using assms value128_less [of a] by (intro mod_pos_pos_trivial) simp_all
  also have "\<dots> = int (value128 a - value128 b)"
    using assms by (simp add: of_nat_diff)
  finally show ?thesis by (simp only: int_int_eq)
qed

lemma DivMod_step_inv:
  assumes inv: "divmod_inv N D (Suc m) s" and D: "0 < D" and N: "N < 2 ^ 128"
  shows "\<exists>s'. DivMod_step s = Some s' \<and> divmod_inv N D m s'"
proof -
  obtain r q den where s: "s = (r, q, den)" by (cases s)
  define d where "d = D * 2 ^ m"
  from inv have eq: "N = value128 q * (2 * d) + value128 r"
    and lt: "value128 r < 2 * d" and den: "value128 den = d"
    by (simp_all add: divmod_inv_def s d_def mult.assoc mult.left_commute)
  have dpos: "0 < d" using D by (simp add: d_def)
  have "value128 q * 2 \<le> value128 q * (2 * d)"
    using dpos by simp
  with eq N have q2: "value128 q * 2 < 2 ^ 128" by linarith
  obtain q1 where q1: "uint128_shl q 1 = Some q1" "value128 q1 = value128 q * 2"
    using uint128_shl_value [of 1 q] q2 by auto
  obtain den' where den': "uint128_shr den 1 = Some den'" "value128 den' = d div 2"
    using uint128_shr_value [of 1 den] by (auto simp: den)
  have dhalf: "0 < m \<Longrightarrow> d div 2 = D * 2 ^ (m - 1)"
    by (cases m) (simp_all add: d_def)
  show ?thesis
  proof (cases "d \<le> value128 r")
    case True
    have "DivMod_step s
        = Some (uint128_sub r den, uint128_or q1 (uint128_of_int 1), den')"
      using True by (simp add: DivMod_step_def s q1 den' uint128_ge_value den)
    moreover have "value128 (uint128_sub r den) = value128 r - d"
      using True by (simp add: uint128_sub_value_nat den)
    moreover have "value128 (uint128_or q1 (uint128_of_int 1)) = value128 q * 2 + 1"
      by (simp add: uint128_or_one_value q1)
    moreover have "N = (value128 q * 2 + 1) * d + (value128 r - d)"
      using True eq by (simp add: algebra_simps)
    moreover have "value128 r - d < d" using True lt by simp
    ultimately show ?thesis
      using dhalf by (simp add: divmod_inv_def den' d_def)
  next
    case False
    have "DivMod_step s = Some (r, q1, den')"
      using False by (simp add: DivMod_step_def s q1 den' uint128_ge_value den)
    moreover have "N = (value128 q * 2) * d + value128 r"
      using eq by (simp add: algebra_simps)
    moreover have "value128 r < d" using False by simp
    ultimately show ?thesis
      using dhalf by (simp add: divmod_inv_def den' q1 d_def)
  qed
qed

lemma DivMod_loop_inv:
  assumes "divmod_inv N D m s" "m = nat (shift + 1 - i)" "0 < D" "N < 2 ^ 128"
  shows "\<exists>s'. DivMod_loop i shift s = Some s' \<and> divmod_inv N D 0 s'"
  using assms
proof (induction m arbitrary: i s)
  case 0
  then have "\<not> i \<le> shift" by simp
  with 0 show ?case by (simp add: DivMod_loop.simps)
next
  case (Suc m)
  then have i: "i \<le> shift" and m: "m = nat (shift + 1 - (i + 1))" by simp_all
  obtain s' where s': "DivMod_step s = Some s'" "divmod_inv N D m s'"
    using DivMod_step_inv [OF Suc.prems(1) Suc.prems(3) Suc.prems(4)] by blast
  from Suc.IH [OF s'(2) m Suc.prems(3) Suc.prems(4)]
  obtain s'' where "DivMod_loop (i + 1) shift s' = Some s''" "divmod_inv N D 0 s''"
    by blast
  with i s'(1) show ?case
    by (subst DivMod_loop.simps) simp
qed

lemma div_mod_unique_nat:
  fixes N D q r :: nat
  assumes "N = q * D + r" "r < D"
  shows "q = N div D" "r = N mod D"
  using assms by simp_all

lemma uint128_ne_zero_value: "uint128_ne b (uint128_of_int 0) \<longleftrightarrow> value128 b \<noteq> 0"
proof -
  have "uint128_ne b (uint128_of_int 0) \<longleftrightarrow> value128 b \<noteq> value128 (uint128_of_int 0)"
    by (simp only: uint128_ne_def uint128_eq_iff value128_inject)
  then show ?thesis by simp
qed

lemma DivMod_value:
  assumes "value128 b \<noteq> 0"
  shows "\<exists>q r. DivMod a b = Some (q, r)
           \<and> value128 q = value128 a div value128 b
           \<and> value128 r = value128 a mod value128 b"
proof -
  define N D where "N = value128 a" and "D = value128 b"
  have D: "0 < D" using assms by (simp add: D_def)
  have N: "N < 2 ^ 128" unfolding N_def by (rule value128_less)
  have nz: "uint128_ne b (uint128_of_int 0)"
    using assms by (simp add: uint128_ne_zero_value)
  consider "N < D" | "N = D" | "D < N" by linarith
  then show ?thesis
  proof cases
    case 1
    then have "DivMod a b = Some (uint128_of_int 0, a)"
      using nz by (simp add: DivMod_def uint128_greater_def uint128_less_value N_def D_def)
    with 1 show ?thesis by (simp add: N_def D_def)
  next
    case 2
    then have "a = b" by (simp add: N_def D_def value128_inject)
    then have "DivMod a b = Some (uint128_of_int 1, uint128_of_int 0)"
      using nz by (simp add: DivMod_def uint128_greater_def uint128_less_value uint128_eq_iff)
    with 2 D show ?thesis by (simp add: N_def D_def)
  next
    case 3
    then have Npos: "value128 a \<noteq> 0" and ne: "a \<noteq> b"
      using D by (auto simp: N_def D_def)
    obtain fa where fa: "Fls128 a = Some (int fa)" "fa < 128" "2 ^ fa \<le> N" "N < 2 ^ (fa + 1)"
      using Fls128_bounds [OF Npos] unfolding N_def by blast
    obtain fb where fb: "Fls128 b = Some (int fb)" "fb < 128" "2 ^ fb \<le> D" "D < 2 ^ (fb + 1)"
      using Fls128_bounds [OF assms] unfolding D_def by blast
    have "(2::nat) ^ fb < 2 ^ (fa + 1)"
      using fb(3) 3 fa(4) by linarith
    then have "fb < fa + 1"
      by (simp only: power_strict_increasing_iff [of "2::nat"] one_less_numeral_iff semiring_norm)
    then have le: "fb \<le> fa" by simp
    define sh where "sh = fa - fb"
    have sh: "int fa - int fb = int sh" "fb + sh = fa" "sh < 128"
      using le fa(2) by (simp_all add: sh_def)
    have "D * 2 ^ sh < 2 ^ (fb + 1) * 2 ^ sh"
      using fb(4) by simp
    also have "\<dots> = 2 ^ (fa + 1)"
      using sh(2) by (simp flip: power_add)
    also have "\<dots> \<le> (2::nat) ^ 128"
      using fa(2) by (intro power_increasing) simp_all
    finally have fit: "D * 2 ^ sh < 2 ^ 128" .
    obtain den where den: "uint128_shl b (int sh) = Some den" "value128 den = D * 2 ^ sh"
      using uint128_shl_value [of "int sh" b] sh(3) fit by (auto simp: D_def)
    have "(2::nat) ^ fb * 2 ^ Suc sh = 2 ^ (fa + 1)"
      unfolding power_add [symmetric] using sh(2) by simp
    with fa(4) have "N < 2 ^ fb * 2 ^ Suc sh"
      by (simp only:)
    also have "\<dots> \<le> D * 2 ^ Suc sh"
      using fb(3) by (intro mult_right_mono) simp_all
    finally have "N < D * 2 ^ Suc sh" .
    then have "divmod_inv N D (Suc sh) (a, uint128_of_int 0, den)"
      by (simp add: divmod_inv_def den N_def)
    moreover have "Suc sh = nat (int sh + 1 - 0)" by simp
    ultimately obtain s' where s': "DivMod_loop 0 (int sh) (a, uint128_of_int 0, den) = Some s'"
      "divmod_inv N D 0 s'"
      using DivMod_loop_inv [OF _ _ D N] by blast
    obtain r q den' where s: "s' = (r, q, den')" by (cases s')
    from s'(2) have "N = value128 q * D + value128 r" "value128 r < D"
      by (simp_all add: divmod_inv_def s)
    then have "value128 q = N div D" "value128 r = N mod D"
      by (rule div_mod_unique_nat)+
    moreover have "DivMod a b = Some (q, r)"
      using nz 3 ne
      by (simp add: DivMod_def uint128_greater_def uint128_less_value uint128_eq_iff
          N_def D_def fa fb sh(1) den s' [unfolded s])
    ultimately show ?thesis by (simp add: N_def D_def)
  qed
qed

text \<open>
  C1. For \<open>b\<close> not zero, \<^verbatim>\<open>uint128_t::DivMod(a, b, &q, &r)\<close> returns, and \<open>q\<close> is
  \<open>floor(a / b)\<close> and \<open>r\<close> is \<open>a mod b\<close>; \<open>a / b\<close> and \<open>a % b\<close> are these two results, so
  \<open>(a / b) * b + (a % b) == a\<close> and \<open>a % b < b\<close>. When \<open>b > a\<close> the quotient is 0 and the
  remainder is \<open>a\<close>; when \<open>b == a\<close> the quotient is 1 and the remainder is 0.
\<close>

theorem uint128_DivMod_correct:
  assumes "uint128_ne b (uint128_of_int 0)"
  shows "map_option (\<lambda>(q, r). (value128 q, value128 r)) (DivMod a b)
           = Some (value128 a div value128 b, value128 a mod value128 b)
       \<and> map_option value128 (uint128_div a b) = Some (value128 a div value128 b)
       \<and> map_option value128 (uint128_mod a b) = Some (value128 a mod value128 b)
       \<and> do { q \<leftarrow> uint128_div a b; r \<leftarrow> uint128_mod a b;
              p \<leftarrow> uint128_mul q b; Some (uint128_add p r) } = Some a
       \<and> map_option (\<lambda>r. uint128_less r b) (uint128_mod a b) = Some True
       \<and> (uint128_greater b a \<longrightarrow> DivMod a b = Some (uint128_of_int 0, a))
       \<and> (uint128_eq b a \<longrightarrow> DivMod a b = Some (uint128_of_int 1, uint128_of_int 0))"
proof -
  from assms have nz: "value128 b \<noteq> 0" by (simp add: uint128_ne_zero_value)
  obtain q r where qr: "DivMod a b = Some (q, r)"
    "value128 q = value128 a div value128 b" "value128 r = value128 a mod value128 b"
    using DivMod_value [OF nz] by blast
  obtain p where p: "uint128_mul q b = Some p"
    "value128 p = value128 q * value128 b mod 2 ^ 128"
    using uint128_mul_value [of q b] by auto
  have "value128 q * value128 b \<le> value128 a"
    by (simp add: qr(2))
  then have "value128 q * value128 b < 2 ^ 128"
    using value128_less [of a] by linarith
  then have "value128 p = value128 q * value128 b" by (simp add: p(2))
  then have "value128 (uint128_add p r) = value128 a mod 2 ^ 128"
    by (simp add: uint128_add_value qr(2) qr(3))
  then have "value128 (uint128_add p r) = value128 a"
    using value128_less [of a] by simp
  then have recon: "uint128_add p r = a" by (simp only: value128_inject)
  have lt: "uint128_less r b"
    using nz by (simp add: uint128_less_value qr(3))
  have early1: "DivMod a b = Some (uint128_of_int 0, a)" if "uint128_greater b a"
    using that assms by (simp add: DivMod_def)
  have early2: "DivMod a b = Some (uint128_of_int 1, uint128_of_int 0)" if "uint128_eq b a"
  proof -
    from that have "\<not> uint128_greater b a"
      by (simp add: uint128_eq_iff uint128_greater_def uint128_less_value)
    with that assms show ?thesis by (simp add: DivMod_def)
  qed
  show ?thesis
    using early1 early2
    by (simp add: qr uint128_div_def uint128_mod_def p recon lt)
qed

theorem uint128_DivMod_correct_witness:
  "uint128_ne (MakeUint128 0 8) (uint128_of_int 0)
   \<and> map_option (\<lambda>(q, r). (value128 q, value128 r))
         (DivMod (MakeUint128 0x100000000000000 0) (MakeUint128 0 8))
       = Some (2 ^ 117, 0)
   \<and> map_option value128 (uint128_div (MakeUint128 0 100) (MakeUint128 0 7)) = Some 14
   \<and> map_option value128 (uint128_mod (MakeUint128 0 100) (MakeUint128 0 7)) = Some 2"
proof -
  have h: "uint128_ne (MakeUint128 0 k) (uint128_of_int 0)" if "k \<noteq> 0" for k
    using that by (simp add: uint128_ne_def uint128_eq_def uint128_of_int_def
        Uint128High64_def Uint128Low64_def MakeUint128_def)
  have v: "value128 (MakeUint128 0x100000000000000 0) = 2 ^ 120"
    "value128 (MakeUint128 0 8) = 8" "value128 (MakeUint128 0 100) = 100"
    "value128 (MakeUint128 0 7) = 7"
    by (simp_all add: value128_Make)
  show ?thesis
    using h [of 8] uint128_DivMod_correct [OF h [of 8], of "MakeUint128 0x100000000000000 0"]
      uint128_DivMod_correct [OF h [of 7], of "MakeUint128 0 100"]
    by (simp add: v)
qed

section \<open>Signed division\<close>

lemma BitCastToSigned_id: "BitCastToSigned v = v"
  by (simp add: BitCastToSigned_def)

lemma svalue128_Make: "svalue128 (MakeInt128 h l) = sint h * 2 ^ 64 + uint l"
  by (simp add: svalue128_def MakeInt128_def Int128High64_def Int128Low64_def)

lemma sless_0_iff_uint: "(x :: 64 word) <s 0 \<longleftrightarrow> 2 ^ 63 \<le> uint x"
proof -
  have r: "- (2 ^ 63) \<le> sint x" "sint x < 2 ^ 63"
    using sint_ge [of x] sint_lt [of x] by simp_all
  have u: "0 \<le> uint x" "uint x < 2 ^ 64"
    using uint_lt2p [of x] by simp_all
  show ?thesis
  proof (cases "x <s 0")
    case True
    then have "uint x = sint x + 2 ^ 64" by (simp add: sint_uint_64)
    with r True show ?thesis by simp
  next
    case False
    then have "uint x = sint x" by (simp add: sint_uint_64)
    with r False show ?thesis by simp
  qed
qed

lemma high_limb_sign:
  fixes h l :: int
  assumes "0 \<le> l" "l < 2 ^ 64"
  shows "2 ^ 63 \<le> h \<longleftrightarrow> 2 ^ 127 \<le> h * 2 ^ 64 + l"
  using assms by auto

lemma svalue128_reinterpret:
  "svalue128 (MakeInt128 (BitCastToSigned (Uint128High64 x)) (Uint128Low64 x))
     = (if value128 x < 2 ^ 127 then int (value128 x) else int (value128 x) - 2 ^ 128)"
proof -
  have l: "0 \<le> uint (Uint128Low64 x)" "uint (Uint128Low64 x) < 2 ^ 64"
    using uint_lt2p [of "Uint128Low64 x"] by simp_all
  have n: "int (value128 x) < 2 ^ 127 \<longleftrightarrow> value128 x < 2 ^ 127"
    by (metis of_nat_less_iff of_nat_numeral of_nat_power)
  have "Uint128High64 x <s 0 \<longleftrightarrow> 2 ^ 127 \<le> int (value128 x)"
    unfolding sless_0_iff_uint int_value128 using l by (rule high_limb_sign)
  with n have s: "Uint128High64 x <s 0 \<longleftrightarrow> \<not> value128 x < 2 ^ 127"
    by linarith
  have "svalue128 (MakeInt128 (BitCastToSigned (Uint128High64 x)) (Uint128Low64 x))
      = (uint (Uint128High64 x) - (if Uint128High64 x <s 0 then 2 ^ 64 else 0)) * 2 ^ 64
        + uint (Uint128Low64 x)"
    by (simp only: BitCastToSigned_id svalue128_Make sint_uint_64)
  also have "\<dots> = int (value128 x) - (if Uint128High64 x <s 0 then 2 ^ 128 else 0)"
    by (simp add: int_value128 algebra_simps)
  finally show ?thesis
    by (simp add: s)
qed

lemma svalue128_reinterpret_small:
  assumes "value128 x < 2 ^ 127"
  shows "svalue128 (MakeInt128 (BitCastToSigned (Uint128High64 x)) (Uint128Low64 x))
           = int (value128 x)"
  using assms by (simp only: svalue128_reinterpret if_True)

lemma svalue128_reinterpret_neg:
  assumes "value128 x \<le> 2 ^ 127"
  shows "svalue128 (MakeInt128 (BitCastToSigned (Uint128High64 (uint128_neg x)))
                               (Uint128Low64 (uint128_neg x)))
           = - int (value128 x)"
proof (cases "value128 x = 0")
  case True
  then have "value128 (uint128_neg x) = 0" by (simp add: uint128_neg_value)
  with True show ?thesis by (simp add: svalue128_reinterpret)
next
  case False
  with assms have "2 ^ 128 - value128 x < (2::nat) ^ 128" by simp
  then have v: "value128 (uint128_neg x) = 2 ^ 128 - value128 x"
    by (simp add: uint128_neg_value)
  have "\<not> value128 (uint128_neg x) < 2 ^ 127"
    unfolding v using assms by simp
  moreover have "int (2 ^ 128 - value128 x) = 2 ^ 128 - int (value128 x)"
    using assms by (simp add: of_nat_diff)
  ultimately show ?thesis
    by (simp add: svalue128_reinterpret v)
qed

lemma svalue128_inject: "svalue128 a = svalue128 b \<longleftrightarrow> a = b"
proof
  assume e: "svalue128 a = svalue128 b"
  then have "int (value128 (uint128_of_int128 a)) = int (value128 (uint128_of_int128 b))"
    by (simp add: int_value128_of_int128 svalue128_neg_iff)
  then have "uint128_of_int128 a = uint128_of_int128 b"
    by (simp only: int_int_eq value128_inject)
  then show "a = b"
    by (simp add: uint128_of_int128_def Int128High64_def Int128Low64_def int128_t.equality)
qed simp

lemma svalue128_minus_one: "svalue128 (int128_of_int (- 1)) = - 1"
  by (simp add: svalue128_def int128_of_int_def Int128High64_def Int128Low64_def
      word_sless_alt unsigned_minus_1_eq_mask mask_eq_exp_minus_1)

lemma int128_DivMod_assert:
  "int128_ne a Int128Min \<or> int128_ne b (int128_of_int (- 1))
     \<longleftrightarrow> \<not> (svalue128 a = - (2 ^ 127) \<and> svalue128 b = - 1)"
proof -
  have "int128_ne x y \<longleftrightarrow> svalue128 x \<noteq> svalue128 y" for x y
    unfolding svalue128_inject
    by (auto simp: int128_ne_def Int128High64_def Int128Low64_def int128_t.equality)
  then show ?thesis
    by (simp add: svalue128_Int128Min svalue128_minus_one)
qed

lemma sdiv_opposite_signs:
  fixes A B :: int
  assumes "B \<noteq> 0" "(A < 0) \<noteq> (B < 0)"
  shows "A sdiv B = - (\<bar>A\<bar> div \<bar>B\<bar>)"
proof (cases "A = 0")
  case True
  then show ?thesis by simp
next
  case False
  with assms have "sgn A * sgn B = - 1"
    by (auto simp: sgn_if)
  then show ?thesis by (simp add: signed_divide_int_def)
qed

lemma sdiv_same_signs:
  fixes A B :: int
  assumes "B \<noteq> 0" "(A < 0) = (B < 0)"
  shows "A sdiv B = \<bar>A\<bar> div \<bar>B\<bar>"
proof (cases "A = 0")
  case True
  then show ?thesis by simp
next
  case False
  with assms have "sgn A * sgn B = 1"
    by (auto simp: sgn_if)
  then show ?thesis by (simp add: signed_divide_int_def)
qed

lemma smod_by_sign:
  fixes A B :: int
  shows "A smod B = (if A < 0 then - (\<bar>A\<bar> mod \<bar>B\<bar>) else \<bar>A\<bar> mod \<bar>B\<bar>)"
  by (auto simp: signed_modulo_int_def sgn_if)

lemma quotient_fits:
  fixes A B :: int
  assumes "- (2 ^ 127) \<le> A" "A < 2 ^ 127" "B \<noteq> 0" "(A < 0) = (B < 0)"
    "\<not> (A = - (2 ^ 127) \<and> B = - 1)"
  shows "\<bar>A\<bar> div \<bar>B\<bar> < 2 ^ 127"
proof (cases "\<bar>B\<bar> = 1")
  case True
  with assms have "\<bar>A\<bar> < 2 ^ 127" by (auto simp: abs_if split: if_splits)
  with True show ?thesis by simp
next
  case False
  with assms(3) have "2 \<le> \<bar>B\<bar>" by simp
  then have "\<bar>A\<bar> div \<bar>B\<bar> \<le> \<bar>A\<bar> div 2"
    by (intro zdiv_mono2) simp_all
  also have "\<dots> < 2 ^ 127" using assms(1,2) by simp
  finally show ?thesis .
qed

lemma int128_DivMod_value:
  assumes B: "svalue128 b \<noteq> 0"
    and ok: "\<not> (svalue128 a = - (2 ^ 127) \<and> svalue128 b = - 1)"
  shows "\<exists>q r. int128_DivMod a b = Some (q, r)
           \<and> int128_div a b = Some q \<and> int128_mod a b = Some r
           \<and> svalue128 q = svalue128 a sdiv svalue128 b
           \<and> svalue128 r = svalue128 a smod svalue128 b"
proof -
  define A B where "A = svalue128 a" and "B = svalue128 b"
  have ra: "- (2 ^ 127) \<le> A" "A < 2 ^ 127" and rb: "- (2 ^ 127) \<le> B" "B < 2 ^ 127"
    using svalue128_range [of a] svalue128_range [of b] by (simp_all add: A_def B_def)
  have na: "Int128High64 a <s 0 \<longleftrightarrow> A < 0" and nb: "Int128High64 b <s 0 \<longleftrightarrow> B < 0"
    by (simp_all add: svalue128_neg_iff A_def B_def)
  have ua: "int (value128 (UnsignedAbsoluteValue a)) = \<bar>A\<bar>"
    and ub: "int (value128 (UnsignedAbsoluteValue b)) = \<bar>B\<bar>"
    by (simp_all add: UnsignedAbsoluteValue_value A_def B_def)
  from ub B have "value128 (UnsignedAbsoluteValue b) \<noteq> 0"
    by (auto simp: B_def)
  then obtain Q R where QR: "DivMod (UnsignedAbsoluteValue a) (UnsignedAbsoluteValue b) = Some (Q, R)"
    "value128 Q = value128 (UnsignedAbsoluteValue a) div value128 (UnsignedAbsoluteValue b)"
    "value128 R = value128 (UnsignedAbsoluteValue a) mod value128 (UnsignedAbsoluteValue b)"
    using DivMod_value by blast
  have vq: "int (value128 Q) = \<bar>A\<bar> div \<bar>B\<bar>"
    unfolding QR(2) zdiv_int ua ub ..
  have vr: "int (value128 R) = \<bar>A\<bar> mod \<bar>B\<bar>"
    unfolding QR(3) zmod_int ua ub ..
  have Bnz: "B \<noteq> 0" using B by (simp add: B_def)
  have "value128 Q \<le> value128 (UnsignedAbsoluteValue a)"
    unfolding QR(2) by (rule div_le_dividend)
  then have "int (value128 Q) \<le> \<bar>A\<bar>"
    unfolding ua [symmetric] by (simp only: of_nat_le_iff)
  then have "int (value128 Q) \<le> 2 ^ 127" using ra by simp
  then have qle: "value128 Q \<le> 2 ^ 127"
    by (metis of_nat_le_iff of_nat_numeral of_nat_power)
  have "\<bar>A\<bar> mod \<bar>B\<bar> < \<bar>B\<bar>" using Bnz by simp
  then have "int (value128 R) < 2 ^ 127" using rb vr by simp
  then have rlt: "value128 R < 2 ^ 127"
    by (metis of_nat_less_iff of_nat_numeral of_nat_power)
  define quot where "quot = (if (Int128High64 a <s 0) \<noteq> (Int128High64 b <s 0)
    then uint128_neg Q else Q)"
  define remainder where "remainder = (if Int128High64 a <s 0 then uint128_neg R else R)"
  define q where "q = MakeInt128 (BitCastToSigned (Uint128High64 quot)) (Uint128Low64 quot)"
  define r where "r = MakeInt128 (BitCastToSigned (Uint128High64 remainder))
    (Uint128Low64 remainder)"
  have pre: "int128_ne a Int128Min \<or> int128_ne b (int128_of_int (- 1))"
    unfolding int128_DivMod_assert by (rule ok)
  have run: "int128_DivMod a b = Some (q, r)" "int128_div a b = Some q"
    "int128_mod a b = Some r"
    using pre
    by (simp_all add: int128_DivMod_def int128_div_def int128_mod_def QR(1) Let_def
        q_def r_def quot_def remainder_def)
  have sq: "svalue128 q = A sdiv B"
  proof (cases "(A < 0) \<noteq> (B < 0)")
    case True
    then have "svalue128 q = - int (value128 Q)"
      using qle by (simp add: q_def quot_def na nb svalue128_reinterpret_neg)
    with True Bnz show ?thesis by (simp add: vq sdiv_opposite_signs)
  next
    case False
    then have same: "(A < 0) = (B < 0)" by simp
    have "int (value128 Q) < 2 ^ 127"
      unfolding vq using ra Bnz same ok [folded A_def B_def] by (rule quotient_fits)
    then have "value128 Q < 2 ^ 127"
      by (metis of_nat_less_iff of_nat_numeral of_nat_power)
    then have "svalue128 q = int (value128 Q)"
      using same by (simp add: q_def quot_def na nb svalue128_reinterpret_small)
    with same Bnz show ?thesis by (simp add: vq sdiv_same_signs)
  qed
  have sr: "svalue128 r = A smod B"
  proof (cases "A < 0")
    case True
    have "value128 R \<le> 2 ^ 127" using rlt by simp
    then have "svalue128 r = - int (value128 R)"
      using True by (simp add: r_def remainder_def na svalue128_reinterpret_neg)
    with True show ?thesis by (simp add: vr smod_by_sign)
  next
    case False
    then have "svalue128 r = int (value128 R)"
      using rlt by (simp add: r_def remainder_def na svalue128_reinterpret_small)
    with False show ?thesis by (simp add: vr smod_by_sign)
  qed
  from run sq sr show ?thesis
    unfolding A_def B_def by blast
qed

text \<open>
  C2, as stated, fails where the quotient or the remainder is zero: \<open>1 / -2\<close> is 0, which
  is not negative although the operands' signs differ, and \<open>-2 % 2\<close> is 0, which is not
  negative although the dividend is.
\<close>

theorem int128_DivMod_sign_counterexample:
  "int128_DivMod (MakeInt128 0 1) (MakeInt128 0xFFFFFFFFFFFFFFFF 0xFFFFFFFFFFFFFFFE)
     = Some (MakeInt128 0 0, MakeInt128 0 1)
   \<and> svalue128 (MakeInt128 0 1) = 1
   \<and> svalue128 (MakeInt128 0xFFFFFFFFFFFFFFFF 0xFFFFFFFFFFFFFFFE) = - 2
   \<and> \<not> ((Int128High64 (MakeInt128 0 0) <s 0)
          = ((Int128High64 (MakeInt128 0 1) <s 0)
             \<noteq> (Int128High64 (MakeInt128 0xFFFFFFFFFFFFFFFF 0xFFFFFFFFFFFFFFFE) <s 0)))
   \<and> int128_DivMod (MakeInt128 0xFFFFFFFFFFFFFFFF 0xFFFFFFFFFFFFFFFE) (MakeInt128 0 2)
     = Some (MakeInt128 0xFFFFFFFFFFFFFFFF 0xFFFFFFFFFFFFFFFF, MakeInt128 0 0)
   \<and> svalue128 (MakeInt128 0 2) = 2
   \<and> \<not> ((Int128High64 (MakeInt128 0 0) <s 0)
          = (Int128High64 (MakeInt128 0xFFFFFFFFFFFFFFFF 0xFFFFFFFFFFFFFFFE) <s 0))"
proof -
  have s: "(0xFFFFFFFFFFFFFFFF :: 64 word) <s 0" "\<not> (0 :: 64 word) <s 0"
    by (simp_all add: word_sless_alt)
  have abs1: "UnsignedAbsoluteValue (MakeInt128 0 1) = MakeUint128 0 1"
    "UnsignedAbsoluteValue (MakeInt128 0 2) = MakeUint128 0 2"
    "UnsignedAbsoluteValue (MakeInt128 0xFFFFFFFFFFFFFFFF 0xFFFFFFFFFFFFFFFE) = MakeUint128 0 2"
    by (simp_all add: UnsignedAbsoluteValue_def uint128_of_int128_def uint128_neg_def
        MakeInt128_def MakeUint128_def Int128High64_def Int128Low64_def
        Uint128High64_def Uint128Low64_def s Let_def)
  have zero: "uint128_of_int 0 = MakeUint128 0 0" "uint128_of_int 1 = MakeUint128 0 1"
    by (simp_all add: uint128_of_int_def MakeUint128_def word_sless_alt)
  have dm: "DivMod (MakeUint128 0 1) (MakeUint128 0 2) = Some (MakeUint128 0 0, MakeUint128 0 1)"
    "DivMod (MakeUint128 0 2) (MakeUint128 0 2) = Some (MakeUint128 0 1, MakeUint128 0 0)"
    by (simp_all add: DivMod_def zero uint128_ne_def uint128_eq_def uint128_greater_def
        uint128_less_def)
  have neg1: "uint128_neg (MakeUint128 0 1) = MakeUint128 0xFFFFFFFFFFFFFFFF 0xFFFFFFFFFFFFFFFF"
    "uint128_neg (MakeUint128 0 0) = MakeUint128 0 0"
    by (simp_all add: uint128_neg_def Let_def MakeUint128_def Uint128High64_def
        Uint128Low64_def)
  have pre: "int128_ne (MakeInt128 0 1) Int128Min"
    "int128_ne (MakeInt128 0 2) (int128_of_int (- 1))"
    by (simp_all add: int128_ne_def Int128Min_def int128_of_int_def MakeInt128_def
        Int128High64_def Int128Low64_def)
  have hs: "Int128High64 (MakeInt128 h l) = h" for h l
    by (simp add: MakeInt128_def Int128High64_def)
  show ?thesis
    by (simp add: int128_DivMod_def pre abs1 dm hs s neg1 BitCastToSigned_id svalue128_Make)
qed

text \<open>
  C2, amended. For \<open>b\<close> not zero and not (\<open>a\<close> the minimum and \<open>b = -1\<close>), signed division
  returns and truncates toward zero: the quotient is \<open>sgn a * sgn b * (|a| div |b|)\<close>,
  the remainder is \<open>sgn a * (|a| mod |b|)\<close>, \<open>(a / b) * b + (a % b) = a\<close> holds on the
  two's-complement values without wrap-around, \<open>|a % b| < |b|\<close>, a nonzero quotient has the
  XOR of the operands' signs as its sign, and a nonzero remainder has the sign of \<open>a\<close>.
  \<^verbatim>\<open>int128_t::DivMod\<close>, \<^verbatim>\<open>operator/\<close> and \<^verbatim>\<open>operator%\<close> agree.
\<close>

theorem int128_DivMod_truncates:
  assumes "svalue128 b \<noteq> 0"
    and "\<not> (svalue128 a = - (2 ^ 127) \<and> svalue128 b = - 1)"
  shows "\<exists>q r. int128_DivMod a b = Some (q, r)
           \<and> int128_div a b = Some q \<and> int128_mod a b = Some r
           \<and> svalue128 q = svalue128 a sdiv svalue128 b
           \<and> svalue128 r = svalue128 a smod svalue128 b
           \<and> svalue128 q * svalue128 b + svalue128 r = svalue128 a
           \<and> \<bar>svalue128 r\<bar> < \<bar>svalue128 b\<bar>
           \<and> (svalue128 q \<noteq> 0 \<longrightarrow>
                (Int128High64 q <s 0)
                  = ((Int128High64 a <s 0) \<noteq> (Int128High64 b <s 0)))
           \<and> (svalue128 r \<noteq> 0 \<longrightarrow> (Int128High64 r <s 0) = (Int128High64 a <s 0))"
proof -
  obtain q r where qr: "int128_DivMod a b = Some (q, r)" "int128_div a b = Some q"
    "int128_mod a b = Some r" "svalue128 q = svalue128 a sdiv svalue128 b"
    "svalue128 r = svalue128 a smod svalue128 b"
    using int128_DivMod_value [OF assms] by blast
  define A B where "A = svalue128 a" and "B = svalue128 b"
  have Bnz: "B \<noteq> 0" using assms(1) by (simp add: B_def)
  have id: "(A sdiv B) * B + A smod B = A"
    by (rule sdiv_mult_smod_eq)
  have rb: "\<bar>A smod B\<bar> < \<bar>B\<bar>"
    using Bnz by (simp add: smod_by_sign)
  have qs: "(A sdiv B < 0) = ((A < 0) \<noteq> (B < 0))" if "A sdiv B \<noteq> 0"
  proof (cases "(A < 0) \<noteq> (B < 0)")
    case True
    with that Bnz show ?thesis
      using pos_imp_zdiv_nonneg_iff [of "\<bar>B\<bar>" "\<bar>A\<bar>"]
      by (simp add: sdiv_opposite_signs)
  next
    case False
    then have "(A < 0) = (B < 0)" by simp
    with Bnz have "A sdiv B = \<bar>A\<bar> div \<bar>B\<bar>" by (rule sdiv_same_signs)
    moreover have "0 \<le> \<bar>A\<bar> div \<bar>B\<bar>"
      using Bnz by (simp add: pos_imp_zdiv_nonneg_iff)
    ultimately show ?thesis using False by simp
  qed
  have rs: "(A smod B < 0) = (A < 0)" if "A smod B \<noteq> 0"
  proof -
    have "0 \<le> \<bar>A\<bar> mod \<bar>B\<bar>" using Bnz by simp
    with that show ?thesis
      by (auto simp: smod_by_sign split: if_splits)
  qed
  show ?thesis
    using qr id rb qs rs
    by (auto simp: svalue128_neg_iff A_def B_def)
qed

theorem int128_DivMod_truncates_witness:
  "svalue128 (MakeInt128 0 2) \<noteq> 0
   \<and> svalue128 (MakeInt128 0xFFFFFFFFFFFFFFFF 0xFFFFFFFFFFFFFFF9) = - 7
   \<and> (\<exists>q r. int128_DivMod (MakeInt128 0xFFFFFFFFFFFFFFFF 0xFFFFFFFFFFFFFFF9) (MakeInt128 0 2)
               = Some (q, r)
            \<and> svalue128 q = - 3 \<and> svalue128 r = - 1)"
proof -
  have v: "svalue128 (MakeInt128 0 2) = 2"
    "svalue128 (MakeInt128 0xFFFFFFFFFFFFFFFF 0xFFFFFFFFFFFFFFF9) = - 7"
    by (simp_all add: svalue128_Make)
  have h1: "svalue128 (MakeInt128 0 2) \<noteq> 0" by (simp add: v)
  have h2: "\<not> (svalue128 (MakeInt128 0xFFFFFFFFFFFFFFFF 0xFFFFFFFFFFFFFFF9) = - (2 ^ 127)
    \<and> svalue128 (MakeInt128 0 2) = - 1)" by (simp add: v)
  have "(- 7 :: int) sdiv 2 = - 3" "(- 7 :: int) smod 2 = - 1"
    by (simp_all add: signed_divide_int_def signed_modulo_int_def)
  then show ?thesis
    using int128_DivMod_truncates [OF h1 h2] by (auto simp: v)
qed

section \<open>The formatter\<close>

lemma digits_of_small: "n < b \<Longrightarrow> digits_of b n = [n]"
  by (simp add: digits_of.simps)

lemma digits_of_big:
  "2 \<le> b \<Longrightarrow> b \<le> n \<Longrightarrow> digits_of b n = digits_of b (n div b) @ [n mod b]"
  by (subst digits_of.simps) simp

lemma length_digits_of:
  assumes "2 \<le> b" "0 < k" "n < b ^ k"
  shows "length (digits_of b n) \<le> k"
  using assms(2,3)
proof (induction k arbitrary: n)
  case 0
  then show ?case by simp
next
  case (Suc k)
  show ?case
  proof (cases "n < b")
    case True
    then show ?thesis by (simp add: digits_of_small)
  next
    case False
    then have big: "b \<le> n" by simp
    have "k \<noteq> 0"
    proof
      assume "k = 0"
      with Suc.prems big show False by simp
    qed
    then have k: "0 < k" by simp
    have "n div b < b ^ k"
      using Suc.prems(2) assms(1) by (simp add: less_mult_imp_div_less mult.commute)
    from Suc.IH [OF k this] show ?thesis
      by (simp add: digits_of_big [OF assms(1) big])
  qed
qed

lemma digits_of_split:
  assumes b: "2 \<le> b" and q: "0 < q"
  shows "0 < k \<Longrightarrow> r < b ^ k \<Longrightarrow>
    digits_of b (q * b ^ k + r)
      = digits_of b q @ replicate (k - length (digits_of b r)) 0 @ digits_of b r"
proof (induction k arbitrary: r)
  case 0
  then show ?case by simp
next
  case (Suc k)
  have bpos: "0 < b" using b by simp
  have big: "b \<le> q * b ^ Suc k + r"
  proof -
    have "1 \<le> q * b ^ k"
      using q bpos by (simp add: Suc_le_eq)
    then have "b * 1 \<le> b * (q * b ^ k)"
      by (rule mult_le_mono2)
    also have "b * (q * b ^ k) = q * b ^ Suc k"
      by simp
    finally have "b * 1 \<le> q * b ^ Suc k" .
    then have "b \<le> q * b ^ Suc k" by (simp only: mult_1_right)
    then show ?thesis by (rule trans_le_add1)
  qed
  have e: "q * b ^ Suc k = (q * b ^ k) * b" by simp
  have bnz: "b \<noteq> 0" using bpos by simp
  have dv: "(q * b ^ Suc k + r) div b = q * b ^ k + r div b"
    unfolding e using bnz by (rule div_mult_self3)
  have md: "(q * b ^ Suc k + r) mod b = r mod b"
    unfolding e by (rule mod_mult_self3)
  have step: "digits_of b (q * b ^ Suc k + r) = digits_of b (q * b ^ k + r div b) @ [r mod b]"
    by (simp only: digits_of_big [OF b big] dv md)
  show ?case
  proof (cases "k = 0")
    case True
    with Suc.prems have "r < b" by simp
    then show ?thesis
      using True step by (simp add: digits_of_small)
  next
    case False
    then have k: "0 < k" by simp
    have rk: "r div b < b ^ k"
      using Suc.prems(2) by (simp add: less_mult_imp_div_less mult.commute)
    note IH = Suc.IH [OF k rk]
    show ?thesis
    proof (cases "r < b")
      case True
      then have "r div b = 0" "r mod b = r" by simp_all
      moreover have "digits_of b 0 = [0]" using bpos by (simp add: digits_of_small)
      moreover have "replicate (k - 1) (0::nat) @ [0] = replicate k 0"
        using k by (cases k) (simp_all add: replicate_append_same)
      ultimately show ?thesis
        using True step IH by (simp add: digits_of_small)
    next
      case False
      then have rb: "b \<le> r" by simp
      have "length (digits_of b (r div b)) \<le> k"
        using b k rk by (rule length_digits_of)
      then show ?thesis
        using step IH by (simp add: digits_of_big [OF b rb] Suc_diff_le)
    qed
  qed
qed

lemma format_nat_unfold:
  "format_nat base showb upper n
     = base_prefix base showb upper n @ map (digit_char upper) (digits_of (radix_of base) n)"
  by (cases base) (simp_all add: format_nat_def base_prefix_def radix_of_def)

lemma digit_char_0: "digit_char upper 0 = CHR ''0''"
  by (simp add: digit_char_def)

lemma radix_ge_2: "2 \<le> radix_of base"
  by (cases base) (simp_all add: radix_of_def)

lemma format_nat_split:
  assumes "0 < q" "0 < k" "r < radix_of base ^ k"
  shows "format_nat base showb upper (q * radix_of base ^ k + r)
           = format_nat base showb upper q @ zero_pad k (format_nat base False upper r)"
proof -
  have nz: "q * radix_of base ^ k + r \<noteq> 0"
    using assms(1) radix_ge_2 [of base] by simp
  have p: "base_prefix base showb upper (q * radix_of base ^ k + r)
      = base_prefix base showb upper q"
    using nz assms(1) by (cases base) (simp_all add: base_prefix_def)
  have np: "base_prefix base False upper r = []"
    by (cases base) (simp_all add: base_prefix_def)
  show ?thesis
    unfolding format_nat_unfold p np zero_pad_def
    using digits_of_split [OF radix_ge_2 assms(1) assms(2) assms(3)]
    by (simp add: digit_char_0)
qed

lemma length_format_nat_padded:
  assumes "0 < k" "r < radix_of base ^ k"
  shows "length (zero_pad k (format_nat base False upper r)) = k"
proof -
  have np: "base_prefix base False upper r = []"
    by (cases base) (simp_all add: base_prefix_def)
  have "length (digits_of (radix_of base) r) \<le> k"
    using radix_ge_2 assms by (rule length_digits_of)
  then show ?thesis
    by (simp add: zero_pad_def format_nat_unfold np)
qed

lemma format_divisor_value:
  "\<exists>dv k. format_divisor base = (dv, k) \<and> value128 dv = radix_of base ^ k \<and> 0 < k
     \<and> 2 ^ 60 \<le> radix_of base ^ k \<and> radix_of base ^ k < 2 ^ 64"
  by (cases base)
    (simp_all add: format_divisor_def radix_of_def value128_def uint128_of_long_long_def
      uint128_of_unsigned_long_long_def Uint128High64_def Uint128Low64_def word_sless_alt)

lemma low_limb_value:
  assumes "value128 x < 2 ^ 64"
  shows "unat (Uint128Low64 x) = value128 x"
proof -
  have "unat (Uint128High64 x) = 0"
  proof (rule ccontr)
    assume "unat (Uint128High64 x) \<noteq> 0"
    then have "1 * 2 ^ 64 \<le> unat (Uint128High64 x) * 2 ^ 64"
      by (intro mult_le_mono1) simp
    with assms show False by (simp add: value128_def)
  qed
  then show ?thesis by (simp add: value128_def)
qed

lemma ToFormattedString_chunks:
  fixes v flags
  defines "V \<equiv> value128 v"
    and "base \<equiv> basefield flags" and "showb \<equiv> showbase flags" and "upper \<equiv> uppercase flags"
  shows "\<exists>k. 0 < k \<and> snd (format_divisor base) = k
    \<and> radix_of base ^ k = value128 (fst (format_divisor base))
    \<and> ToFormattedString v flags = Some
      (let d = radix_of base ^ k; high = V div d div d; mid = V div d mod d; low = V mod d
       in if high \<noteq> 0 then
            format_nat base showb upper high @ zero_pad k (format_nat base False upper mid)
              @ zero_pad k (format_nat base False upper low)
          else if mid \<noteq> 0 then
            format_nat base showb upper mid @ zero_pad k (format_nat base False upper low)
          else format_nat base showb upper low)"
proof -
  obtain dv k where fd: "format_divisor base = (dv, k)"
    and dv: "value128 dv = radix_of base ^ k" and k: "0 < k"
    and lo: "2 ^ 60 \<le> radix_of base ^ k" and hi: "radix_of base ^ k < 2 ^ 64"
    using format_divisor_value [of base] by blast
  define d where "d = radix_of base ^ k"
  have rpos: "0 < radix_of base" using radix_ge_2 [of base] by simp
  then have dnz: "value128 dv \<noteq> 0" by (simp add: dv)
  obtain h1 low where dm1: "DivMod v dv = Some (h1, low)"
    and h1: "value128 h1 = V div d" and low: "value128 low = V mod d"
    using DivMod_value [OF dnz, of v] by (auto simp: V_def dv d_def)
  obtain high mid where dm2: "DivMod h1 dv = Some (high, mid)"
    and high: "value128 high = V div d div d" and mid: "value128 mid = V div d mod d"
    using DivMod_value [OF dnz, of h1] by (auto simp: h1 dv d_def)
  have dpos: "0 < d" and d64: "d < 2 ^ 64" and d60: "2 ^ 60 \<le> d"
    using lo hi rpos by (simp_all add: d_def)
  have "V div d div d = V div (d * d)" by (simp add: div_mult2_eq)
  also have "\<dots> \<le> V div (2 ^ 60 * 2 ^ 60)"
    using d60 by (intro div_le_mono2 mult_le_mono) simp_all
  also have "\<dots> < 2 ^ 64"
    using value128_less [of v] by (simp add: V_def less_mult_imp_div_less)
  finally have "value128 high < 2 ^ 64" by (simp only: high)
  then have uh: "unat (Uint128Low64 high) = V div d div d"
    by (simp add: low_limb_value high)
  have "V div d mod d < 2 ^ 64" "V mod d < 2 ^ 64"
    using dpos d64 by (meson mod_less_divisor less_trans)+
  then have um: "unat (Uint128Low64 mid) = V div d mod d"
    and ul: "unat (Uint128Low64 low) = V mod d"
    by (simp_all add: low_limb_value mid low)
  have z: "Uint128Low64 high \<noteq> 0 \<longleftrightarrow> V div d div d \<noteq> 0"
    "Uint128Low64 mid \<noteq> 0 \<longleftrightarrow> V div d mod d \<noteq> 0"
    unfolding uh [symmetric] um [symmetric] by (simp_all add: unat_eq_0)
  have "ToFormattedString v flags = Some
      (if V div d div d \<noteq> 0 then
         format_nat base showb upper (V div d div d)
           @ zero_pad k (format_nat base False upper (V div d mod d))
           @ zero_pad k (format_nat base False upper (V mod d))
       else if V div d mod d \<noteq> 0 then
         format_nat base showb upper (V div d mod d)
           @ zero_pad k (format_nat base False upper (V mod d))
       else format_nat base showb upper (V mod d))"
    by (simp add: ToFormattedString_def fd [unfolded base_def] dm1 dm2 Let_def z uh um ul
        os_put_uint64_def os_setw_def os_setfill_def os_noshowbase_def os_setf_copy_def
        ostringstream_init_def zero_pad_def base_def showb_def upper_def)
  then show ?thesis
    using k fd dv by (auto simp: Let_def d_def)
qed

lemma ToFormattedString_exact:
  "ToFormattedString v flags
     = Some (format_nat (basefield flags) (showbase flags) (uppercase flags) (value128 v))"
proof -
  define V base showb upper where "V = value128 v" and "base = basefield flags"
    and "showb = showbase flags" and "upper = uppercase flags"
  obtain k where k: "0 < k"
    and out: "ToFormattedString v flags = Some
      (let d = radix_of base ^ k; high = V div d div d; mid = V div d mod d; low = V mod d
       in if high \<noteq> 0 then
            format_nat base showb upper high @ zero_pad k (format_nat base False upper mid)
              @ zero_pad k (format_nat base False upper low)
          else if mid \<noteq> 0 then
            format_nat base showb upper mid @ zero_pad k (format_nat base False upper low)
          else format_nat base showb upper low)"
    using ToFormattedString_chunks [where v = v and flags = flags]
    unfolding V_def base_def showb_def upper_def by blast
  define d where "d = radix_of base ^ k"
  have dpos: "0 < d" using radix_ge_2 [of base] by (simp add: d_def)
  define high mid low where "high = V div d div d" and "mid = V div d mod d"
    and "low = V mod d"
  have lt: "mid < d" "low < d" using dpos by (simp_all add: mid_def low_def)
  have V1: "V = (V div d) * d + low" by (simp add: low_def)
  have V2: "V div d = high * d + mid" by (simp add: high_def mid_def)
  have fmt: "format_nat base showb upper V
      = (if high \<noteq> 0 then
           format_nat base showb upper high @ zero_pad k (format_nat base False upper mid)
             @ zero_pad k (format_nat base False upper low)
         else if mid \<noteq> 0 then
           format_nat base showb upper mid @ zero_pad k (format_nat base False upper low)
         else format_nat base showb upper low)"
  proof (cases "high = 0")
    case True
    note h0 = this
    show ?thesis
    proof (cases "mid = 0")
      case True
      with h0 V1 V2 show ?thesis by simp
    next
      case False
      then have "0 < mid" by simp
      from format_nat_split [OF this k lt(2) [unfolded d_def], of showb upper]
      have "format_nat base showb upper (mid * d + low)
          = format_nat base showb upper mid @ zero_pad k (format_nat base False upper low)"
        by (simp only: d_def)
      moreover have "V = mid * d + low" using h0 V1 V2 by simp
      ultimately show ?thesis using h0 False by simp
    qed
  next
    case False
    then have hp: "0 < high" by simp
    then have qp: "0 < high * d + mid" using dpos by simp
    from format_nat_split [OF qp k lt(2) [unfolded d_def], of showb upper]
    have a: "format_nat base showb upper ((high * d + mid) * d + low)
        = format_nat base showb upper (high * d + mid)
          @ zero_pad k (format_nat base False upper low)"
      by (simp only: d_def)
    from format_nat_split [OF hp k lt(1) [unfolded d_def], of showb upper]
    have b: "format_nat base showb upper (high * d + mid)
        = format_nat base showb upper high @ zero_pad k (format_nat base False upper mid)"
      by (simp only: d_def)
    have "V = (high * d + mid) * d + low" using V1 V2 by simp
    with a b False show ?thesis by simp
  qed
  have "ToFormattedString v flags = Some (format_nat base showb upper V)"
    unfolding out Let_def fmt high_def mid_def low_def d_def ..
  then show ?thesis
    by (simp only: V_def base_def showb_def upper_def)
qed

lemma digit_value_all:
  "list_all (\<lambda>d. of_char (digit_char False d) - 48 = d) [0..<10]"
  by code_simp

lemma digit_value:
  assumes "d < 10"
  shows "of_char (digit_char False d) - 48 = d"
proof -
  from assms have "d \<in> set [0..<10]" by simp
  with digit_value_all show ?thesis
    unfolding list_all_iff by blast
qed

lemma parse_decimal_digits:
  "parse_decimal (map (digit_char False) (digits_of 10 n)) = n"
proof (induction n rule: less_induct)
  case (less n)
  show ?case
  proof (cases "n < 10")
    case True
    then show ?thesis
      by (simp add: digits_of_small parse_decimal_def digit_value)
  next
    case False
    then have big: "10 \<le> n" by simp
    then have "n div 10 < n" by simp
    from less.IH [OF this]
    have "parse_decimal (map (digit_char False) (digits_of 10 (n div 10))) = n div 10" .
    then show ?thesis
      using digits_of_big [of 10 n] big
      by (simp add: parse_decimal_def digit_value)
  qed
qed

lemma ToFormattedString_chunk_form:
  "ToFormattedString v flags = Some
     (let base = basefield flags; k = snd (format_divisor base);
          d = value128 (fst (format_divisor base));
          high = value128 v div d div d; mid = value128 v div d mod d; low = value128 v mod d
      in if high \<noteq> 0 then
           format_nat base (showbase flags) (uppercase flags) high
             @ zero_pad k (format_nat base False (uppercase flags) mid)
             @ zero_pad k (format_nat base False (uppercase flags) low)
         else if mid \<noteq> 0 then
           format_nat base (showbase flags) (uppercase flags) mid
             @ zero_pad k (format_nat base False (uppercase flags) low)
         else format_nat base (showbase flags) (uppercase flags) low)"
  using ToFormattedString_chunks [where v = v and flags = flags]
  by (auto simp: Let_def)

lemma chunk_exact_width:
  "(let base = basefield flags; k = snd (format_divisor base);
        d = value128 (fst (format_divisor base))
    in length (zero_pad k (format_nat base False (uppercase flags) (n mod d))) = k)"
proof -
  obtain dv k where fd: "format_divisor (basefield flags) = (dv, k)"
    and dv: "value128 dv = radix_of (basefield flags) ^ k" and k: "0 < k"
    using format_divisor_value [of "basefield flags"] by blast
  have "n mod radix_of (basefield flags) ^ k < radix_of (basefield flags) ^ k"
    using radix_ge_2 [of "basefield flags"] by simp
  from length_format_nat_padded [OF k this] show ?thesis
    by (simp add: fd dv Let_def)
qed

lemma format_divisor_table:
  "(case format_divisor ios_dec of (dv, k) \<Rightarrow> value128 dv = 10 ^ 19 \<and> k = 19)
   \<and> (case format_divisor ios_unset of (dv, k) \<Rightarrow> value128 dv = 10 ^ 19 \<and> k = 19)
   \<and> (case format_divisor ios_oct of (dv, k) \<Rightarrow> value128 dv = 8 ^ 21 \<and> k = 21)
   \<and> (case format_divisor ios_hex of (dv, k) \<Rightarrow> value128 dv = 16 ^ 15 \<and> k = 15)"
  by (simp add: format_divisor_def value128_def uint128_of_long_long_def
      uint128_of_unsigned_long_long_def Uint128High64_def Uint128Low64_def word_sless_alt)

lemma ToString_decimal:
  "ToString v = Some (map (digit_char False) (digits_of 10 (value128 v)))"
  by (simp add: ToString_def ToFormattedString_exact format_nat_def)

lemma digits_2_64:
  "map (digit_char False) (digits_of 10 18446744073709551616) = ''18446744073709551616''"
  by (simp add: digits_of.simps digit_char_def)

lemma ToString_2_64: "ToString (MakeUint128 1 0) = Some ''18446744073709551616''"
proof -
  have "value128 (MakeUint128 1 0) = 18446744073709551616"
    by (simp add: value128_Make)
  then show ?thesis
    by (simp only: ToString_decimal digits_2_64)
qed

text \<open>
  C6. \<^verbatim>\<open>ToFormattedString\<close> always returns. It divides the value twice by the chunk
  divisor (\<open>10^19\<close>, \<open>8^21\<close> or \<open>16^15\<close>), writes the most significant nonzero chunk
  unpadded and each later chunk zero-padded to exactly 19, 21 or 15 digits, and the text
  is the numeral of the value in the selected base (with the \<^verbatim>\<open>showbase\<close> prefix when
  asked for). In decimal, which \<^verbatim>\<open>ToString\<close> selects, the text is the base-10 numeral of
  the value and reads back as the value; \<^verbatim>\<open>ToString(MakeUint128(1, 0))\<close> is
  \<^verbatim>\<open>"18446744073709551616"\<close>.
\<close>

theorem ToFormattedString_chunked_exact:
  "ToFormattedString v flags = Some
     (let base = basefield flags; k = snd (format_divisor base);
          d = value128 (fst (format_divisor base));
          high = value128 v div d div d; mid = value128 v div d mod d; low = value128 v mod d
      in if high \<noteq> 0 then
           format_nat base (showbase flags) (uppercase flags) high
             @ zero_pad k (format_nat base False (uppercase flags) mid)
             @ zero_pad k (format_nat base False (uppercase flags) low)
         else if mid \<noteq> 0 then
           format_nat base (showbase flags) (uppercase flags) mid
             @ zero_pad k (format_nat base False (uppercase flags) low)
         else format_nat base (showbase flags) (uppercase flags) low)
   \<and> (let base = basefield flags; k = snd (format_divisor base);
            d = value128 (fst (format_divisor base))
        in length (zero_pad k (format_nat base False (uppercase flags) (n mod d))) = k)
   \<and> (case format_divisor ios_dec of (dv, k) \<Rightarrow> value128 dv = 10 ^ 19 \<and> k = 19)
   \<and> (case format_divisor ios_unset of (dv, k) \<Rightarrow> value128 dv = 10 ^ 19 \<and> k = 19)
   \<and> (case format_divisor ios_oct of (dv, k) \<Rightarrow> value128 dv = 8 ^ 21 \<and> k = 21)
   \<and> (case format_divisor ios_hex of (dv, k) \<Rightarrow> value128 dv = 16 ^ 15 \<and> k = 15)
   \<and> ToFormattedString v flags
       = Some (format_nat (basefield flags) (showbase flags) (uppercase flags) (value128 v))
   \<and> ToString v = Some (map (digit_char False) (digits_of 10 (value128 v)))
   \<and> map_option parse_decimal (ToString v) = Some (value128 v)
   \<and> ToString (MakeUint128 1 0) = Some ''18446744073709551616''"
proof -
  have "map_option parse_decimal (ToString v) = Some (value128 v)"
    by (simp only: ToString_decimal option.map parse_decimal_digits)
  with ToFormattedString_chunk_form [of v flags] chunk_exact_width [of flags n]
    format_divisor_table ToFormattedString_exact [of v flags] ToString_decimal [of v]
    ToString_2_64
  show ?thesis by (intro conjI) (elim conjE, assumption)+
qed

theorem ToFormattedString_chunked_exact_witness:
  "ToFormattedString (MakeUint128 0 255)
       \<lparr>basefield = ios_hex, showbase = True, uppercase = True\<rparr> = Some ''0XFF''
   \<and> ToString (MakeUint128 0 255) = Some ''255''"
proof -
  define F where "F = \<lparr>basefield = ios_hex, showbase = True, uppercase = True\<rparr>"
  have v: "value128 (MakeUint128 0 255) = 255" by (simp add: value128_Make)
  have f: "format_nat ios_hex True True 255 = ''0XFF''"
    "map (digit_char False) (digits_of 10 255) = ''255''"
    by (simp_all add: format_nat_def digits_of.simps digit_char_def)
  note t = ToFormattedString_chunked_exact [of "MakeUint128 0 255" F 0]
  from t have "ToFormattedString (MakeUint128 0 255) F
      = Some (format_nat (basefield F) (showbase F) (uppercase F)
          (value128 (MakeUint128 0 255)))"
    by (elim conjE) assumption
  moreover from t have "ToString (MakeUint128 0 255)
      = Some (map (digit_char False) (digits_of 10 (value128 (MakeUint128 0 255))))"
    by (elim conjE) assumption
  ultimately show ?thesis
    by (simp add: v f F_def)
qed

end
